theory Spec2Isabelle
  imports Main "HOL-Library.Sublist" "HOL-Library.Monad_Syntax"
begin

section \<open>Address-space reconstruction: \<open>MapEntry\<close> and \<open>ProcessMaps\<close>\<close>

text \<open>
  \<open>unwinding_result_reporter.py\<close> keeps, for every pid, a Python list of \<open>MapEntry\<close>
  objects. \<open>ProcessMaps.add\<close> rewrites the \<open>start\<close>/\<open>end\<close> attributes of the objects it
  keeps, in place, and \<open>ProcessMaps.fork_pid\<close> calls \<open>copy.deepcopy\<close>. Objects are therefore
  modelled by references into an explicit store: a \<open>ref\<close> is the identity of a \<open>MapEntry\<close>
  object, \<open>heap\<close> gives the current attributes of every object, and \<open>next_ref\<close> is the
  first reference not yet handed out. Python integers are unbounded, hence \<open>int\<close>.
  The attribute \<open>end\<close> is spelled \<open>end'\<close>, since \<open>end\<close> is reserved.
\<close>

record MapEntry =
  start :: int
  end' :: int
  filename :: string

type_synonym ref = nat

record ProcessMaps =
  heap :: "ref \<Rightarrow> MapEntry"
  next_ref :: ref
  process_maps :: "int \<rightharpoonup> ref list"

text \<open>\<open>ProcessMaps.__init__\<close>: the empty dictionary (and a store without objects).\<close>

definition ProcessMaps_init :: ProcessMaps where
  "ProcessMaps_init =
     \<lparr>heap = (\<lambda>_. \<lparr>start = 0, end' = 0, filename = []\<rparr>), next_ref = 0,
      process_maps = Map.empty\<rparr>"

text \<open>\<open>MapEntry(start, end, filename)\<close>: a new object.\<close>

definition MapEntry_init :: "ProcessMaps \<Rightarrow> int \<Rightarrow> int \<Rightarrow> string \<Rightarrow> ProcessMaps \<times> ref" where
  "MapEntry_init pm s e f =
     (pm\<lparr>heap := (heap pm)(next_ref pm := \<lparr>start = s, end' = e, filename = f\<rparr>),
         next_ref := Suc (next_ref pm)\<rparr>,
      next_ref pm)"

text \<open>\<open>self.process_maps.get(pid, [])\<close>.\<close>

definition get_list :: "ProcessMaps \<Rightarrow> int \<Rightarrow> ref list" where
  "get_list pm pid = (case process_maps pm pid of None \<Rightarrow> [] | Some l \<Rightarrow> l)"

text \<open>
  The \<open>for entry in old_list\<close> loop of \<open>ProcessMaps.add\<close> (lines 55 to 69). The loop state
  is the store, \<open>new_list\<close> and \<open>map_entry_used\<close>; attributes are read from the current
  store at every iteration, as the objects are.
\<close>

fun add_loop ::
  "ref list \<Rightarrow> ref \<Rightarrow> (ref \<Rightarrow> MapEntry) \<times> ref list \<times> bool \<Rightarrow> (ref \<Rightarrow> MapEntry) \<times> ref list \<times> bool"
where
  "add_loop [] map_entry st = st"
| "add_loop (entry # rest) map_entry (h, new_list, map_entry_used) =
     (if end' (h entry) \<le> start (h map_entry) then
        add_loop rest map_entry (h, new_list @ [entry], map_entry_used)
      else if start (h entry) < start (h map_entry) then
        add_loop rest map_entry
          (h(entry := (h entry)\<lparr>end' := start (h map_entry)\<rparr>), new_list @ [entry], map_entry_used)
      else
        (let new_list1 = (if \<not> map_entry_used then new_list @ [map_entry] else new_list) in
         if start (h entry) \<ge> end' (h map_entry) then
           add_loop rest map_entry (h, new_list1 @ [entry], True)
         else if end' (h entry) > end' (h map_entry) then
           add_loop rest map_entry
             (h(entry := (h entry)\<lparr>start := end' (h map_entry)\<rparr>), new_list1 @ [entry], True)
         else
           add_loop rest map_entry (h, new_list1, True)))"

text \<open>\<open>ProcessMaps.add(pid, map_entry)\<close> (lines 51 to 72).\<close>

definition add :: "ProcessMaps \<Rightarrow> int \<Rightarrow> ref \<Rightarrow> ProcessMaps" where
  "add pm pid map_entry =
     (case add_loop (get_list pm pid) map_entry (heap pm, [], False) of
        (h, new_list, map_entry_used) \<Rightarrow>
          pm\<lparr>heap := h,
             process_maps := (process_maps pm)
               (pid \<mapsto> (if \<not> map_entry_used then new_list @ [map_entry] else new_list))\<rparr>)"

text \<open>
  \<open>copy.deepcopy(entry_list)\<close> on a list of \<open>MapEntry\<close> objects: a new list with one new
  object for every distinct object of the argument, the attributes (integers and a string,
  which are immutable) copied; \<open>memo\<close> is deepcopy's table from objects already copied to
  their copies.
\<close>

fun deepcopy_loop ::
  "ref list \<Rightarrow> (ref \<Rightarrow> MapEntry) \<times> ref \<times> (ref \<rightharpoonup> ref) \<times> ref list \<Rightarrow>
     (ref \<Rightarrow> MapEntry) \<times> ref \<times> (ref \<rightharpoonup> ref) \<times> ref list"
where
  "deepcopy_loop [] st = st"
| "deepcopy_loop (r # rs) (h, n, memo, acc) =
     (case memo r of
        Some c \<Rightarrow> deepcopy_loop rs (h, n, memo, acc @ [c])
      | None \<Rightarrow> deepcopy_loop rs (h(n := h r), Suc n, memo(r \<mapsto> n), acc @ [n]))"

definition deepcopy :: "ProcessMaps \<Rightarrow> ref list \<Rightarrow> ProcessMaps \<times> ref list" where
  "deepcopy pm entry_list =
     (case deepcopy_loop entry_list (heap pm, next_ref pm, Map.empty, []) of
        (h, n, memo, acc) \<Rightarrow> (pm\<lparr>heap := h, next_ref := n\<rparr>, acc))"

text \<open>\<open>ProcessMaps.fork_pid(pid, ppid)\<close> (lines 74 to 78).\<close>

definition fork_pid :: "ProcessMaps \<Rightarrow> int \<Rightarrow> int \<Rightarrow> ProcessMaps" where
  "fork_pid pm pid ppid =
     (if pid = ppid then pm
      else (case deepcopy pm (get_list pm ppid) of
              (pm1, copied) \<Rightarrow> pm1\<lparr>process_maps := (process_maps pm1)(pid \<mapsto> copied)\<rparr>))"

text \<open>
  \<open>bisect.bisect_right(a, key)\<close> with \<open>key = MapEntry(addr, addr, '')\<close>: the standard
  library's loop, whose only comparison is \<open>key < a[mid]\<close>, that is
  \<open>MapEntry.__lt__\<close>: \<open>key.start < a[mid].start\<close>.
\<close>

function bisect_right :: "(ref \<Rightarrow> MapEntry) \<Rightarrow> ref list \<Rightarrow> int \<Rightarrow> nat \<Rightarrow> nat \<Rightarrow> nat" where
  "bisect_right h a x lo hi =
     (if lo < hi then
        (let mid = (lo + hi) div 2 in
         if x < start (h (a ! mid)) then bisect_right h a x lo mid
         else bisect_right h a x (mid + 1) hi)
      else lo)"
  by pat_completeness auto
termination
  by (relation "measure (\<lambda>(h, a, x, lo, hi). hi - lo)") auto

text \<open>\<open>ProcessMaps.find(pid, addr)\<close> (lines 80 to 86): the object found, or \<open>None\<close>.\<close>

definition find_entry :: "ProcessMaps \<Rightarrow> int \<Rightarrow> int \<Rightarrow> ref option" where
  "find_entry pm pid addr =
     (let entry_list = get_list pm pid;
          pos = bisect_right (heap pm) entry_list addr 0 (length entry_list)
      in if pos > 0 \<and> end' (heap pm (entry_list ! (pos - 1))) > addr
         then Some (entry_list ! (pos - 1)) else None)"

text \<open>
  The two record kinds of \<open>build_unwinding_result_report\<close> that change the maps:
  an mmap record ends in \<open>process_maps.add(pid, MapEntry(start, end, filename))\<close> (line 358),
  a fork record in \<open>process_maps.fork_pid(pid, ppid)\<close> (line 389).
\<close>

datatype map_event = MmapRecord int int int string | ForkRecord int int

fun apply_event :: "ProcessMaps \<Rightarrow> map_event \<Rightarrow> ProcessMaps" where
  "apply_event pm (MmapRecord pid s e f) =
     (case MapEntry_init pm s e f of (pm1, r) \<Rightarrow> add pm1 pid r)"
| "apply_event pm (ForkRecord pid ppid) = fork_pid pm pid ppid"

definition run_events :: "map_event list \<Rightarrow> ProcessMaps" where
  "run_events evs = foldl apply_event ProcessMaps_init evs"

text \<open>What a pid's list holds: the attributes of its objects, in list order.\<close>

definition entries :: "ProcessMaps \<Rightarrow> int \<Rightarrow> MapEntry list" where
  "entries pm pid = map (heap pm) (get_list pm pid)"


section \<open>Exceptions and strings\<close>

text \<open>
  Modelled from the spec: \<open>log_fatal\<close>, which is defined in \<open>utils.py\<close>, a file that is
  not among the sources. A fatal parse error aborts the whole run with a diagnostic that
  names the position in the input, so \<open>log_fatal('unexpected dump output near line %d' % i)\<close>
  is the exception \<open>Fatal i\<close>. The other constructors are the built-in exceptions that the
  modelled code can raise.
\<close>

datatype py_error = IndexError | KeyError | ValueError | Fatal nat

text \<open>\<open>s.startswith(p)\<close>, \<open>s.endswith(p)\<close> and the substring test \<open>name in s\<close>.\<close>

definition startswith :: "string \<Rightarrow> string \<Rightarrow> bool" where
  "startswith s p = prefix p s"

definition endswith :: "string \<Rightarrow> string \<Rightarrow> bool" where
  "endswith s p = prefix (rev p) (rev s)"

fun in_str :: "string \<Rightarrow> string \<Rightarrow> bool" where
  "in_str name [] = (name = [])"
| "in_str name (c # cs) = (prefix name (c # cs) \<or> in_str name cs)"

text \<open>
  \<open>int(s)\<close> and \<open>int(s, 16)\<close> of Python 2 on a token without whitespace (every string the
  script converts is a token of \<open>split()\<close> or a match of \<open>\w+\<close>): an optional sign, for
  base 16 an optional \<open>0x\<close> or \<open>0X\<close>, then at least one digit of the base; anything else
  raises \<open>ValueError\<close>.
\<close>

definition digit_val :: "char \<Rightarrow> nat option" where
  "digit_val c =
     (let n = of_char c :: nat in
      if 48 \<le> n \<and> n \<le> 57 then Some (n - 48)
      else if 97 \<le> n \<and> n \<le> 102 then Some (n - 87)
      else if 65 \<le> n \<and> n \<le> 70 then Some (n - 55)
      else None)"

fun digits_val :: "nat \<Rightarrow> string \<Rightarrow> nat \<Rightarrow> nat option" where
  "digits_val base [] acc = Some acc"
| "digits_val base (c # cs) acc =
     (case digit_val c of
        None \<Rightarrow> None
      | Some d \<Rightarrow> if d < base then digits_val base cs (acc * base + d) else None)"

definition unsigned_val :: "nat \<Rightarrow> string \<Rightarrow> nat option" where
  "unsigned_val base s =
     (let body = (if base = 16 \<and> (startswith s ''0x'' \<or> startswith s ''0X'') then drop 2 s else s)
      in if body = [] then None else digits_val base body 0)"

definition py_int :: "nat \<Rightarrow> string \<Rightarrow> py_error + int" where
  "py_int base s =
     (case s of
        [] \<Rightarrow> Inl ValueError
      | c # cs \<Rightarrow>
          if c = CHR ''-'' then
            (case unsigned_val base cs of None \<Rightarrow> Inl ValueError | Some n \<Rightarrow> Inr (- int n))
          else if c = CHR ''+'' then
            (case unsigned_val base cs of None \<Rightarrow> Inl ValueError | Some n \<Rightarrow> Inr (int n))
          else
            (case unsigned_val base s of None \<Rightarrow> Inl ValueError | Some n \<Rightarrow> Inr (int n)))"

section \<open>Samples and their aggregation\<close>

text \<open>
  \<open>CallChainNode\<close>, \<open>SampleResult\<close>, \<open>CallChainRecord\<close> and \<open>UnwindingTimes\<close>. The
  attribute \<open>filename\<close> of a node is spelled \<open>node_filename\<close> (\<open>filename\<close> is the attribute
  of \<open>MapEntry\<close>); \<open>pid\<close>, \<open>tid\<close> and \<open>callchain\<close> carry the prefix of their class where two
  classes share the name. \<open>unwinding_result\<close> is the dictionary of a sample (string to
  string). A \<open>CallChainRecord\<close> starts with \<open>pid = None\<close>, \<open>tid = None\<close>.
\<close>

record CallChainNode =
  ip :: int
  sp :: int
  node_filename :: string
  vaddr_in_file :: int
  function_name :: string
  map_start_addr :: int
  map_end_addr :: int

record SampleResult =
  sample_pid :: "int option"
  sample_tid :: "int option"
  unwinding_result :: "string \<rightharpoonup> string"
  callchain :: "CallChainNode list"

record CallChainRecord =
  record_pid :: "int option"
  record_tid :: "int option"
  record_callchain :: "CallChainNode list"

record UnwindingTimes =
  total_time :: int
  count :: int
  max_time :: int

text \<open>\<open>UnwindingTimes.add_time\<close> (lines 103 to 106).\<close>

definition add_time :: "UnwindingTimes \<Rightarrow> int \<Rightarrow> UnwindingTimes" where
  "add_time ut used_time =
     ut\<lparr>total_time := total_time ut + used_time,
        count := count ut + 1,
        max_time := max (max_time ut) used_time\<rparr>"

text \<open>\<open>FunctionResult\<close>: the dictionary from stop reason to the list of samples.\<close>

record FunctionResult =
  sample_results :: "string \<rightharpoonup> SampleResult list"

text \<open>
  The loop at lines 158 to 161: \<open>Inr True\<close> when it returns from the method at a duplicate,
  \<open>Inr False\<close> when it runs to its end. \<open>x.callchain[-1]\<close> raises \<open>IndexError\<close> on an
  empty call chain; the stored sample's is evaluated first.
\<close>

fun duplicate_loop :: "SampleResult list \<Rightarrow> SampleResult \<Rightarrow> py_error + bool" where
  "duplicate_loop [] sample_result = Inr False"
| "duplicate_loop (result # rest) sample_result =
     (if callchain result = [] then Inl IndexError
      else if callchain sample_result = [] then Inl IndexError
      else if vaddr_in_file (last (callchain result)) =
              vaddr_in_file (last (callchain sample_result)) then Inr True
      else duplicate_loop rest sample_result)"

text \<open>
  \<open>FunctionResult.add_sample_result\<close> (lines 153 to 164). \<open>if not result_list\<close> holds for
  a missing key and for an empty list; both store a new empty list under the key.
\<close>

definition FunctionResult_add_sample_result ::
  "FunctionResult \<Rightarrow> SampleResult \<Rightarrow> py_error + FunctionResult" where
  "FunctionResult_add_sample_result fr sample_result =
     (case unwinding_result sample_result ''stop_reason'' of
        None \<Rightarrow> Inl KeyError
      | Some stop_reason \<Rightarrow>
          (let result_list = (case sample_results fr stop_reason of None \<Rightarrow> [] | Some l \<Rightarrow> l);
               results1 = (if result_list = [] then (sample_results fr)(stop_reason \<mapsto> [])
                           else sample_results fr)
           in case duplicate_loop result_list sample_result of
                Inl e \<Rightarrow> Inl e
              | Inr True \<Rightarrow> Inr (fr\<lparr>sample_results := results1\<rparr>)
              | Inr False \<Rightarrow>
                  if length result_list < 10 then
                    Inr (fr\<lparr>sample_results := results1(stop_reason \<mapsto> result_list @ [sample_result])\<rparr>)
                  else Inr (fr\<lparr>sample_results := results1\<rparr>)))"

text \<open>\<open>FileResult\<close> and \<open>FileResult.add_sample_result\<close> (lines 179 to 185).\<close>

record FileResult =
  function_results :: "string \<rightharpoonup> FunctionResult"

definition FileResult_add_sample_result ::
  "FileResult \<Rightarrow> SampleResult \<Rightarrow> py_error + FileResult" where
  "FileResult_add_sample_result file_result sample_result =
     (if callchain sample_result = [] then Inl IndexError
      else
        (let fname = function_name (last (callchain sample_result));
             function_result = (case function_results file_result fname of
                                  None \<Rightarrow> \<lparr>sample_results = Map.empty\<rparr>
                                | Some fr \<Rightarrow> fr)
         in case FunctionResult_add_sample_result function_result sample_result of
              Inl e \<Rightarrow> Inl e
            | Inr fr' \<Rightarrow>
                Inr (file_result\<lparr>function_results := (function_results file_result)(fname \<mapsto> fr')\<rparr>)))"

text \<open>\<open>UnwindingResultErrorReport\<close> (lines 194 to 232).\<close>

record UnwindingResultErrorReport =
  omit_callchains_fixed_by_joiner :: bool
  report_process_maps :: ProcessMaps
  unwinding_times :: UnwindingTimes
  file_results :: "string \<rightharpoonup> FileResult"

definition UnwindingResultErrorReport_init :: "bool \<Rightarrow> UnwindingResultErrorReport" where
  "UnwindingResultErrorReport_init flag =
     \<lparr>omit_callchains_fixed_by_joiner = flag,
      report_process_maps = ProcessMaps_init,
      unwinding_times = \<lparr>total_time = 0, count = 0, max_time = 0\<rparr>,
      file_results = Map.empty\<rparr>"

text \<open>The loop over the two names at lines 216 to 218.\<close>

fun in_memory_loop :: "string list \<Rightarrow> SampleResult \<Rightarrow> py_error + bool" where
  "in_memory_loop [] sample_result = Inr False"
| "in_memory_loop (name # names) sample_result =
     (if callchain sample_result = [] then Inl IndexError
      else if in_str name (node_filename (last (callchain sample_result))) then Inr True
      else in_memory_loop names sample_result)"

text \<open>\<open>is_callchain_complete\<close> (lines 221 to 226).\<close>

fun is_callchain_complete :: "CallChainNode list \<Rightarrow> bool" where
  "is_callchain_complete [] = False"
| "is_callchain_complete (node # rest) =
     (if endswith (node_filename node) ''libc.so'' \<and>
         function_name node \<in> set [''__libc_init'', ''__start_thread'']
      then True
      else is_callchain_complete rest)"

text \<open>\<open>UnwindingResultErrorReport.should_omit\<close> (lines 214 to 232).\<close>

definition should_omit ::
  "UnwindingResultErrorReport \<Rightarrow> SampleResult \<Rightarrow> CallChainRecord \<Rightarrow> py_error + bool" where
  "should_omit self sample_result joined_record =
     (case in_memory_loop [''/dev/ashmem/dalvik-jit-code-cache'', ''//anon''] sample_result of
        Inl e \<Rightarrow> Inl e
      | Inr True \<Rightarrow> Inr True
      | Inr False \<Rightarrow>
          if is_callchain_complete (callchain sample_result) then Inr True
          else if omit_callchains_fixed_by_joiner self \<and>
                  is_callchain_complete (record_callchain joined_record) then Inr True
          else Inr False)"

text \<open>\<open>UnwindingResultErrorReport.add_sample_result\<close> (lines 204 to 212).\<close>

definition add_sample_result ::
  "UnwindingResultErrorReport \<Rightarrow> SampleResult \<Rightarrow> CallChainRecord \<Rightarrow>
     py_error + UnwindingResultErrorReport" where
  "add_sample_result self sample_result joined_record =
     (case unwinding_result sample_result ''used_time'' of
        None \<Rightarrow> Inl KeyError
      | Some used \<Rightarrow>
          (case py_int 10 used of
             Inl e \<Rightarrow> Inl e
           | Inr used_time \<Rightarrow>
               (let self1 = self\<lparr>unwinding_times := add_time (unwinding_times self) used_time\<rparr>
                in case should_omit self1 sample_result joined_record of
                     Inl e \<Rightarrow> Inl e
                   | Inr True \<Rightarrow> Inr self1
                   | Inr False \<Rightarrow>
                       (let fname = node_filename (last (callchain sample_result));
                            file_result = (case file_results self1 fname of
                                             None \<Rightarrow> \<lparr>function_results = Map.empty\<rparr>
                                           | Some fr \<Rightarrow> fr)
                        in case FileResult_add_sample_result file_result sample_result of
                             Inl e \<Rightarrow> Inl e
                           | Inr fr' \<Rightarrow>
                               Inr (self1\<lparr>file_results := (file_results self1)(fname \<mapsto> fr')\<rparr>)))))"

text \<open>
  The samples of a run, in trace order: \<open>build_unwinding_result_report\<close> calls
  \<open>add_sample_result\<close> once per unwinding-result record (line 375); an exception ends the
  run.
\<close>

fun add_sample_results ::
  "UnwindingResultErrorReport \<Rightarrow> (SampleResult \<times> CallChainRecord) list \<Rightarrow>
     py_error + UnwindingResultErrorReport" where
  "add_sample_results self [] = Inr self"
| "add_sample_results self ((sample_result, joined_record) # rest) =
     (case add_sample_result self sample_result joined_record of
        Inl e \<Rightarrow> Inl e
      | Inr self1 \<Rightarrow> add_sample_results self1 rest)"


section \<open>Parsing a call-chain record\<close>

text \<open>
  The string operations \<open>parse_callchain_record\<close> uses, for Python 2 byte strings:
  \<open>strip()\<close> and \<open>split()\<close> (on the six whitespace characters), \<open>rfind\<close> (\<open>-1\<close> when the
  character does not occur) and the slice \<open>s[0:e]\<close>, where a negative \<open>e\<close> counts from the
  end.
\<close>

definition is_space :: "char \<Rightarrow> bool" where
  "is_space c \<longleftrightarrow> c \<in> set [CHR '' '', CHR 0x09, CHR 0x0A, CHR 0x0B, CHR 0x0C, CHR 0x0D]"

definition is_word :: "char \<Rightarrow> bool" where
  "is_word c =
     (let n = of_char c :: nat in
      (48 \<le> n \<and> n \<le> 57) \<or> (65 \<le> n \<and> n \<le> 90) \<or> (97 \<le> n \<and> n \<le> 122) \<or> n = 95)"

definition py_strip :: "string \<Rightarrow> string" where
  "py_strip s = rev (dropWhile is_space (rev (dropWhile is_space s)))"

fun split_from :: "string \<Rightarrow> string \<Rightarrow> string list" where
  "split_from cur [] = (if cur = [] then [] else [cur])"
| "split_from cur (c # cs) =
     (if is_space c then (if cur = [] then split_from [] cs else cur # split_from [] cs)
      else split_from (cur @ [c]) cs)"

definition py_split :: "string \<Rightarrow> string list" where
  "py_split s = split_from [] s"

definition rfind :: "char \<Rightarrow> string \<Rightarrow> int" where
  "rfind c s =
     (if c \<in> set s then int (length s) - 1 - int (length (takeWhile (\<lambda>x. x \<noteq> c) (rev s)))
      else - 1)"

definition slice_to :: "string \<Rightarrow> int \<Rightarrow> string" where
  "slice_to s e = (if e < 0 then take (nat (int (length s) + e)) s else take (nat e) s)"

text \<open>
  The three regular expressions. Their pieces: a literal, \<open>\s+\<close> and \<open>\w+\<close>. In each
  pattern \<open>\s+\<close> and \<open>\w+\<close> are followed by a character outside their class (or by \<open>$\<close>),
  so the greedy match is the only one; \<open>$\<close> matches at the end and before a final newline.
\<close>

definition lit :: "string \<Rightarrow> string \<Rightarrow> string option" where
  "lit p s = (if prefix p s then Some (drop (length p) s) else None)"

definition spaces1 :: "string \<Rightarrow> string option" where
  "spaces1 s = (if takeWhile is_space s = [] then None else Some (dropWhile is_space s))"

definition word1 :: "string \<Rightarrow> (string \<times> string) option" where
  "word1 s = (if takeWhile is_word s = [] then None
              else Some (takeWhile is_word s, dropWhile is_word s))"

definition at_end :: "string \<Rightarrow> bool" where
  "at_end s \<longleftrightarrow> s = [] \<or> s = [CHR 0x0A]"

text \<open>\<open>re.search(r'ip\s+0x(\w+),\s+sp\s+0x(\w+)$', line)\<close>: the two groups.\<close>

definition match_ip_at :: "string \<Rightarrow> (string \<times> string) option" where
  "match_ip_at s =
     do {
       r1 \<leftarrow> lit ''ip'' s;
       r2 \<leftarrow> spaces1 r1;
       r3 \<leftarrow> lit ''0x'' r2;
       (g1, r4) \<leftarrow> word1 r3;
       r5 \<leftarrow> lit '','' r4;
       r6 \<leftarrow> spaces1 r5;
       r7 \<leftarrow> lit ''sp'' r6;
       r8 \<leftarrow> spaces1 r7;
       r9 \<leftarrow> lit ''0x'' r8;
       (g2, r10) \<leftarrow> word1 r9;
       if at_end r10 then Some (g1, g2) else None
     }"

fun re_search_ip :: "string \<Rightarrow> (string \<times> string) option" where
  "re_search_ip [] = match_ip_at []"
| "re_search_ip (c # cs) =
     (case match_ip_at (c # cs) of Some g \<Rightarrow> Some g | None \<Rightarrow> re_search_ip cs)"

text \<open>\<open>re.search(r'\)\[\+\w+\]\)$', line)\<close>: whether it matches.\<close>

definition match_tail_at :: "string \<Rightarrow> bool" where
  "match_tail_at s =
     (do {
        r1 \<leftarrow> lit '')[+'' s;
        (g, r2) \<leftarrow> word1 r1;
        r3 \<leftarrow> lit ''])'' r2;
        if at_end r3 then Some () else None
      } \<noteq> None)"

fun re_search_tail :: "string \<Rightarrow> bool" where
  "re_search_tail [] = match_tail_at []"
| "re_search_tail (c # cs) = (match_tail_at (c # cs) \<or> re_search_tail cs)"

text \<open>
  \<open>re.match('(.+)\[\+(\w+)\]\)', s)\<close>: the two groups. \<open>.+\<close> is greedy and backtracks, so
  the first group ends at the last position where the rest of the pattern matches; it is
  not empty and holds no newline.
\<close>

definition frame_at :: "string \<Rightarrow> string option" where
  "frame_at s =
     do {
       r1 \<leftarrow> lit ''[+'' s;
       (g, r2) \<leftarrow> word1 r1;
       r3 \<leftarrow> lit ''])'' r2;
       Some g
     }"

fun re_match_frame_from :: "string \<Rightarrow> string \<Rightarrow> (string \<times> string) option" where
  "re_match_frame_from pre [] = None"
| "re_match_frame_from pre (c # cs) =
     (if c = CHR 0x0A then None
      else (case re_match_frame_from (pre @ [c]) cs of
              Some g \<Rightarrow> Some g
            | None \<Rightarrow>
                if pre = [] then None
                else (case frame_at (c # cs) of None \<Rightarrow> None | Some g2 \<Rightarrow> Some (pre, g2))))"

definition re_match_frame :: "string \<Rightarrow> (string \<times> string) option" where
  "re_match_frame s = re_match_frame_from [] s"

text \<open>
  The local variables of \<open>parse_callchain_record\<close> (lines 263 to 271) that the loop
  changes; \<open>callchain_record\<close> is the variable \<open>record\<close>.
\<close>

record parse_vars =
  callchain_record :: CallChainRecord
  ips :: "int list"
  sps :: "int list"
  function_names :: "string list"
  filenames :: "string list"
  vaddr_in_files :: "int list"
  in_callchain :: bool

definition parse_vars_init :: parse_vars where
  "parse_vars_init =
     \<lparr>callchain_record = \<lparr>record_pid = None, record_tid = None, record_callchain = []\<rparr>,
      ips = [], sps = [], function_names = [], filenames = [], vaddr_in_files = [],
      in_callchain = False\<rparr>"

text \<open>The body of the \<open>while\<close> loop for the line \<open>lines[i]\<close> (lines 273 to 303).\<close>

definition parse_line :: "string \<Rightarrow> nat \<Rightarrow> string \<Rightarrow> parse_vars \<Rightarrow> py_error + parse_vars" where
  "parse_line chain_type i raw v =
     (let line = py_strip raw; items = py_split line in
      if items = [] then Inr v
      else if items ! 0 = ''pid'' \<and> length items = 2 then
        (case py_int 10 (items ! 1) of
           Inl e \<Rightarrow> Inl e
         | Inr n \<Rightarrow> Inr (v\<lparr>callchain_record := (callchain_record v)\<lparr>record_pid := Some n\<rparr>\<rparr>))
      else if items ! 0 = ''tid'' \<and> length items = 2 then
        (case py_int 10 (items ! 1) of
           Inl e \<Rightarrow> Inl e
         | Inr n \<Rightarrow> Inr (v\<lparr>callchain_record := (callchain_record v)\<lparr>record_tid := Some n\<rparr>\<rparr>))
      else if items ! 0 = ''chain_type'' \<and> length items = 2 then
        (if items ! 1 \<noteq> chain_type then Inl (Fatal i) else Inr v)
      else if items ! 0 = ''ip'' then
        (case re_search_ip line of
           None \<Rightarrow> Inr v
         | Some (g1, g2) \<Rightarrow>
             (case py_int 16 g1 of
                Inl e \<Rightarrow> Inl e
              | Inr a \<Rightarrow>
                  (case py_int 16 g2 of
                     Inl e \<Rightarrow> Inl e
                   | Inr b \<Rightarrow> Inr (v\<lparr>ips := ips v @ [a], sps := sps v @ [b]\<rparr>))))
      else if items ! 0 = ''callchain:'' then Inr (v\<lparr>in_callchain := True\<rparr>)
      else if in_callchain v then
        (let break_pos =
               (if re_search_tail line
                then rfind CHR ''('' (slice_to line (rfind CHR ''('' line))
                else rfind CHR ''('' line)
         in if break_pos > 0 then
              (case re_match_frame (drop (nat (break_pos + 1)) line) of
                 None \<Rightarrow> Inr v
               | Some (g1, g2) \<Rightarrow>
                   (case py_int 16 g2 of
                      Inl e \<Rightarrow> Inl e
                    | Inr a \<Rightarrow>
                        Inr (v\<lparr>function_names :=
                                 function_names v @ [py_strip (take (nat break_pos) line)],
                               filenames := filenames v @ [g1],
                               vaddr_in_files := vaddr_in_files v @ [a]\<rparr>)))
            else Inr v)
      else Inr v)"

text \<open>
  The \<open>while\<close> loop (line 272), on the lines from \<open>lines[i]\<close> on: it ends at the end of the
  input or at a line that starts with \<open>record\<close>, and returns the final \<open>i\<close>.
\<close>

fun parse_loop :: "string \<Rightarrow> string list \<Rightarrow> nat \<Rightarrow> parse_vars \<Rightarrow> py_error + (nat \<times> parse_vars)" where
  "parse_loop chain_type [] i v = Inr (i, v)"
| "parse_loop chain_type (l # ls) i v =
     (if startswith l ''record'' then Inr (i, v)
      else (case parse_line chain_type i l v of
              Inl e \<Rightarrow> Inl e
            | Inr v1 \<Rightarrow> parse_loop chain_type ls (i + 1) v1))"

text \<open>
  Lines 307 to 313: the bounds of the map that covers \<open>ip\<close>, or \<open>(0, 0)\<close>. With
  \<open>record.pid = None\<close> the dictionary has no entry, and \<open>find\<close> returns \<open>None\<close>.
\<close>

definition find_bounds :: "ProcessMaps \<Rightarrow> int option \<Rightarrow> int \<Rightarrow> int \<times> int" where
  "find_bounds pm pid_opt addr =
     (case pid_opt of
        None \<Rightarrow> (0, 0)
      | Some p \<Rightarrow>
          (case find_entry pm p addr of
             None \<Rightarrow> (0, 0)
           | Some map_entry \<Rightarrow> (start (heap pm map_entry), end' (heap pm map_entry))))"

text \<open>
  \<open>parse_callchain_record(lines, i, chain_type, process_maps)\<close> (lines 259 to 323);
  \<open>lines[i]\<close> raises \<open>IndexError\<close> beyond the end of the list.
\<close>

definition parse_callchain_record ::
  "string list \<Rightarrow> nat \<Rightarrow> string \<Rightarrow> ProcessMaps \<Rightarrow> py_error + (nat \<times> CallChainRecord)" where
  "parse_callchain_record lines i chain_type pm =
     (if i > length lines then Inl IndexError
      else if i = length lines \<or> \<not> startswith (lines ! i) ''record callchain:'' then Inl (Fatal i)
      else
        (case parse_loop chain_type (drop (i + 1) lines) (i + 1) parse_vars_init of
           Inl e \<Rightarrow> Inl e
         | Inr (i1, v) \<Rightarrow>
             (let bounds = map (find_bounds pm (record_pid (callchain_record v))) (ips v);
                  map_start_addrs = map fst bounds;
                  map_end_addrs = map snd bounds;
                  n = length (ips v)
              in if record_pid (callchain_record v) = None \<or> record_tid (callchain_record v) = None \<or>
                    n = 0 \<or> length (sps v) \<noteq> n \<or> length (function_names v) \<noteq> n \<or>
                    length (filenames v) \<noteq> n \<or> length (vaddr_in_files v) \<noteq> n \<or>
                    length map_start_addrs \<noteq> n \<or> length map_end_addrs \<noteq> n
                 then Inl (Fatal i1)
                 else
                   Inr (i1,
                        (callchain_record v)
                          \<lparr>record_callchain :=
                             record_callchain (callchain_record v) @
                             map (\<lambda>j. \<lparr>ip = ips v ! j, sp = sps v ! j,
                                       node_filename = filenames v ! j,
                                       vaddr_in_file = vaddr_in_files v ! j,
                                       function_name = function_names v ! j,
                                       map_start_addr = map_start_addrs ! j,
                                       map_end_addr = map_end_addrs ! j\<rparr>)
                                 [0..<n]\<rparr>))))"


section \<open>Specification-level notions for the address-space registry\<close>

text \<open>
  What one pass of the loop of \<open>ProcessMaps.add\<close> does to the attributes of a single
  stored entry \<open>e\<close> when \<open>m\<close> is inserted: kept, cut at one side, or dropped. \<open>before m e\<close>
  holds for the entries handled by the first two branches, the ones that do not trigger the
  insertion of \<open>m\<close>; \<open>ins m es\<close> is the list of attribute values the loop leaves behind.
  The lemmas below show that \<open>add\<close> computes \<open>ins\<close> on the stored values.
\<close>

definition step_v :: "MapEntry \<Rightarrow> MapEntry \<Rightarrow> MapEntry list" where
  "step_v m e =
     (if end' e \<le> start m then [e]
      else if start e < start m then [e\<lparr>end' := start m\<rparr>]
      else if start e \<ge> end' m then [e]
      else if end' e > end' m then [e\<lparr>start := end' m\<rparr>]
      else [])"

definition before :: "MapEntry \<Rightarrow> MapEntry \<Rightarrow> bool" where
  "before m e = (end' e \<le> start m \<or> start e < start m)"

fun ins :: "MapEntry \<Rightarrow> MapEntry list \<Rightarrow> MapEntry list" where
  "ins m [] = [m]"
| "ins m (e # es) =
     (if before m e then step_v m e @ ins m es
      else m # concat (map (step_v m) (e # es)))"

text \<open>
  Well-formed stores: every list holds pairwise different objects that have been allocated,
  and no object is in the lists of two pids.
\<close>

definition wf_maps :: "ProcessMaps \<Rightarrow> bool" where
  "wf_maps pm \<longleftrightarrow>
     (\<forall>p. distinct (get_list pm p) \<and> (\<forall>r\<in>set (get_list pm p). r < next_ref pm)) \<and>
     (\<forall>p q. p \<noteq> q \<longrightarrow> set (get_list pm p) \<inter> set (get_list pm q) = {})"

text \<open>
  The invariant of a pid's list: every range is non-empty and each range ends at or before
  the start of every later one.
\<close>

definition ranges_ok :: "MapEntry list \<Rightarrow> bool" where
  "ranges_ok es \<longleftrightarrow>
     (\<forall>e\<in>set es. start e < end' e) \<and> sorted_wrt (\<lambda>a b. end' a \<le> start b) es"

text \<open>An mmap record is valid when its range satisfies \<open>start < end\<close>.\<close>

fun valid_event :: "map_event \<Rightarrow> bool" where
  "valid_event (MmapRecord pid s e f) = (s < e)"
| "valid_event (ForkRecord pid ppid) = True"

text \<open>The pid whose list an event assigns.\<close>

fun target :: "map_event \<Rightarrow> int" where
  "target (MmapRecord pid s e f) = pid"
| "target (ForkRecord pid ppid) = pid"

text \<open>A sequence of inserts \<open>add(pid, MapEntry(s, e, f))\<close> into the list of one pid.\<close>

definition insert_all :: "ProcessMaps \<Rightarrow> int \<Rightarrow> (int \<times> int \<times> string) list \<Rightarrow> ProcessMaps" where
  "insert_all pm pid ms = foldl apply_event pm (map (\<lambda>(s, e, f). MmapRecord pid s e f) ms)"

text \<open>The object \<open>r\<close> covers \<open>addr\<close>: \<open>start \<le> addr < end\<close>.\<close>

definition covers :: "ProcessMaps \<Rightarrow> ref \<Rightarrow> int \<Rightarrow> bool" where
  "covers pm r addr \<longleftrightarrow> start (heap pm r) \<le> addr \<and> addr < end' (heap pm r)"


section \<open>Specification-level notions for the aggregation\<close>

text \<open>
  The list stored for a stop reason in a \<open>FunctionResult\<close>, for a function and a stop
  reason in a \<open>FileResult\<close>, and for a (filename, function name, stop reason) triple in a
  report; a missing key reads as the empty list.
\<close>

definition fn_list :: "FunctionResult \<Rightarrow> string \<Rightarrow> SampleResult list" where
  "fn_list fr sr = (case sample_results fr sr of None \<Rightarrow> [] | Some l \<Rightarrow> l)"

definition file_list :: "FileResult \<Rightarrow> string \<Rightarrow> string \<Rightarrow> SampleResult list" where
  "file_list file fn sr =
     (case function_results file fn of None \<Rightarrow> [] | Some fr \<Rightarrow> fn_list fr sr)"

definition stored ::
  "UnwindingResultErrorReport \<Rightarrow> string \<Rightarrow> string \<Rightarrow> string \<Rightarrow> SampleResult list" where
  "stored r f fn sr = (case file_results r f of None \<Rightarrow> [] | Some file \<Rightarrow> file_list file fn sr)"

text \<open>The anchor frame of a sample is the last node of its call chain.\<close>

definition anchor_vaddr :: "SampleResult \<Rightarrow> int" where
  "anchor_vaddr s = vaddr_in_file (last (callchain s))"

definition anchor_file :: "SampleResult \<Rightarrow> string" where
  "anchor_file s = node_filename (last (callchain s))"

definition anchor_function :: "SampleResult \<Rightarrow> string" where
  "anchor_function s = function_name (last (callchain s))"

text \<open>
  What recording a sample does to the list of its triple: nothing when a stored sample has
  the same anchor offset or the list has 10 entries, an append otherwise.
\<close>

definition is_duplicate :: "SampleResult list \<Rightarrow> SampleResult \<Rightarrow> bool" where
  "is_duplicate l s = list_ex (\<lambda>x. anchor_vaddr x = anchor_vaddr s) l"

definition recorded :: "SampleResult list \<Rightarrow> SampleResult \<Rightarrow> SampleResult list" where
  "recorded l s = (if is_duplicate l s then l else if length l < 10 then l @ [s] else l)"

text \<open>
  A sample as \<open>build_unwinding_result_report\<close> passes it on: a non-empty call chain, the
  key \<open>stop_reason\<close>, and a key \<open>used_time\<close> whose value \<open>int\<close> accepts.
\<close>

definition well_formed :: "SampleResult \<Rightarrow> bool" where
  "well_formed s \<longleftrightarrow>
     callchain s \<noteq> [] \<and>
     unwinding_result s ''stop_reason'' \<noteq> None \<and>
     (case unwinding_result s ''used_time'' of None \<Rightarrow> False | Some u \<Rightarrow> \<not> isl (py_int 10 u))"

text \<open>The invariant of the stored lists.\<close>

definition stored_ok :: "UnwindingResultErrorReport \<Rightarrow> bool" where
  "stored_ok r \<longleftrightarrow>
     (\<forall>f fn sr. (\<forall>x\<in>set (stored r f fn sr). callchain x \<noteq> []) \<and> length (stored r f fn sr) \<le> 10)"

text \<open>
  A pair of a sample and its joined record that is well formed, is retained by
  \<open>should_omit\<close> under the given flag, and belongs to the triple \<open>(f, fn, sr)\<close>.
\<close>

definition retained_at ::
  "bool \<Rightarrow> string \<Rightarrow> string \<Rightarrow> string \<Rightarrow> SampleResult \<times> CallChainRecord \<Rightarrow> bool" where
  "retained_at flag f fn sr x \<longleftrightarrow>
     well_formed (fst x) \<and>
     should_omit (UnwindingResultErrorReport_init flag) (fst x) (snd x) = Inr False \<and>
     node_filename (last (callchain (fst x))) = f \<and>
     function_name (last (callchain (fst x))) = fn \<and>
     unwinding_result (fst x) ''stop_reason'' = Some sr"

text \<open>Example data for the concrete instances below.\<close>

definition ex_node :: "string \<Rightarrow> string \<Rightarrow> int \<Rightarrow> CallChainNode" where
  "ex_node f fn v =
     \<lparr>ip = 0, sp = 0, node_filename = f, vaddr_in_file = v, function_name = fn,
      map_start_addr = 0, map_end_addr = 0\<rparr>"

definition ex_sample :: "int \<Rightarrow> string \<Rightarrow> CallChainNode list \<Rightarrow> SampleResult" where
  "ex_sample p t nodes =
     \<lparr>sample_pid = Some p, sample_tid = Some p,
      unwinding_result = [''time'' \<mapsto> t, ''used_time'' \<mapsto> ''5'', ''stop_reason'' \<mapsto> ''1''],
      callchain = nodes\<rparr>"

definition ex_joined :: CallChainRecord where
  "ex_joined = \<lparr>record_pid = Some 1, record_tid = Some 1, record_callchain = []\<rparr>"

definition ex_eleven :: "(SampleResult \<times> CallChainRecord) list" where
  "ex_eleven = map (\<lambda>v. (ex_sample v ''7'' [ex_node ''f'' ''g'' v], ex_joined))
                 [1, 2, 3, 4, 5, 6, 7, 8, 9, 10, 11]"

definition ex_report :: UnwindingResultErrorReport where
  "ex_report =
     \<lparr>omit_callchains_fixed_by_joiner = False,
      report_process_maps = ProcessMaps_init,
      unwinding_times = \<lparr>total_time = 5, count = 1, max_time = 5\<rparr>,
      file_results = [''f'' \<mapsto> \<lparr>function_results =
         [''g'' \<mapsto> \<lparr>sample_results = [''1'' \<mapsto> [ex_sample 1 ''7'' [ex_node ''f'' ''g'' 3]]]\<rparr>]\<rparr>]\<rparr>"

section \<open>Specification-level notions for the parser\<close>

text \<open>
  \<open>header_missing\<close>: the first test of \<open>parse_callchain_record\<close>, the input ends at \<open>i\<close> or
  the line there is not a \<open>record callchain:\<close> header. \<open>tag_line\<close> is the tag a line
  carries, when the line consists of the token \<open>chain_type\<close> and one more token.
\<close>

definition header_missing :: "string list \<Rightarrow> nat \<Rightarrow> bool" where
  "header_missing lines i \<longleftrightarrow> i = length lines \<or> \<not> startswith (lines ! i) ''record callchain:''"

definition tag_line :: "string \<Rightarrow> string option" where
  "tag_line raw =
     (let items = py_split (py_strip raw)
      in if length items = 2 \<and> items ! 0 = ''chain_type'' then Some (items ! 1) else None)"

subsection \<open>What one line of the block means\<close>

text \<open>
  A line of the block is read as one of seven items: a pid, a tid or a tag line with its
  second token, an \<open>ip\<close> line with the two hexadecimal tokens of the pair, the \<open>callchain:\<close>
  marker, a frame line with its function name, filename and offset token, or a line that
  the loop skips. The tokens are kept as strings: whether \<open>int\<close> accepts them is a
  separate question.
\<close>

datatype line_item =
    PidLine string
  | TidLine string
  | TagLine string
  | PairLine string string
  | MarkerLine
  | FrameLine string string string
  | OtherLine

text \<open>
  The three parts of a frame line \<open>function (filename[+offset])\<close>: the text before the
  opening parenthesis chosen by the code, stripped, and the two groups of the pattern
  matched after it.
\<close>

definition frame_parts :: "string \<Rightarrow> (string \<times> string \<times> string) option" where
  "frame_parts line =
     (let break_pos =
            (if re_search_tail line
             then rfind CHR ''('' (slice_to line (rfind CHR ''('' line))
             else rfind CHR ''('' line)
      in if break_pos > 0 then
           (case re_match_frame (drop (nat (break_pos + 1)) line) of
              None \<Rightarrow> None
            | Some (g1, g2) \<Rightarrow> Some (py_strip (take (nat break_pos) line), g1, g2))
         else None)"

text \<open>
  The item of a raw line, in the order of the tests of the loop. A line is read as a frame
  only after the \<open>callchain:\<close> marker; a line whose first token is \<open>ip\<close> and that does not
  match the pattern, and a frame line without a proper tail, are skipped.
\<close>

definition classify :: "bool \<Rightarrow> string \<Rightarrow> line_item" where
  "classify after_marker raw =
     (let line = py_strip raw; items = py_split line in
      if items = [] then OtherLine
      else if items ! 0 = ''pid'' \<and> length items = 2 then PidLine (items ! 1)
      else if items ! 0 = ''tid'' \<and> length items = 2 then TidLine (items ! 1)
      else if items ! 0 = ''chain_type'' \<and> length items = 2 then TagLine (items ! 1)
      else if items ! 0 = ''ip'' then
        (case re_search_ip line of None \<Rightarrow> OtherLine | Some (g1, g2) \<Rightarrow> PairLine g1 g2)
      else if items ! 0 = ''callchain:'' then MarkerLine
      else if after_marker then
        (case frame_parts line of None \<Rightarrow> OtherLine | Some (fn, f, off) \<Rightarrow> FrameLine fn f off)
      else OtherLine)"

text \<open>
  The items of a list of lines, in the order of the lines; the flag says whether the
  marker has been seen.
\<close>

fun is_marker :: "line_item \<Rightarrow> bool" where
  "is_marker MarkerLine = True"
| "is_marker (PidLine t) = False"
| "is_marker (TidLine t) = False"
| "is_marker (TagLine t) = False"
| "is_marker (PairLine a b) = False"
| "is_marker (FrameLine fn f off) = False"
| "is_marker OtherLine = False"

fun scan :: "bool \<Rightarrow> string list \<Rightarrow> line_item list" where
  "scan after_marker [] = []"
| "scan after_marker (l # ls) =
     classify after_marker l # scan (after_marker \<or> is_marker (classify after_marker l)) ls"

subsection \<open>The block of a record\<close>

text \<open>
  The block of the record at \<open>i\<close> is made of the lines after \<open>i\<close> up to the next line that
  starts with \<open>record\<close>, or up to the end of the input; \<open>block_end\<close> is the index of the line
  after it, and \<open>items_of\<close> are its items: item \<open>j\<close> is the item of the line \<open>i + 1 + j\<close>.
\<close>

definition block :: "string list \<Rightarrow> nat \<Rightarrow> string list" where
  "block lines i = takeWhile (\<lambda>l. \<not> startswith l ''record'') (drop (i + 1) lines)"

definition items_of :: "string list \<Rightarrow> nat \<Rightarrow> line_item list" where
  "items_of lines i = scan False (block lines i)"

definition block_end :: "string list \<Rightarrow> nat \<Rightarrow> nat" where
  "block_end lines i = i + 1 + length (block lines i)"

subsection \<open>Which items stop the parser\<close>

text \<open>
  \<open>int_of\<close> is the integer of a token that \<open>int\<close> accepts. An item raises \<open>ValueError\<close> when
  \<open>int\<close> rejects one of its tokens: base 10 for a pid or a tid, base 16 for a pair and for
  the offset of a frame. A tag item is wrong when its tag is not the expected one. The
  parser stops at the first item of either kind.
\<close>

definition int_of :: "nat \<Rightarrow> string \<Rightarrow> int" where
  "int_of base s = (case py_int base s of Inl e \<Rightarrow> 0 | Inr n \<Rightarrow> n)"

fun raises_value_error :: "line_item \<Rightarrow> bool" where
  "raises_value_error (PidLine t) = isl (py_int 10 t)"
| "raises_value_error (TidLine t) = isl (py_int 10 t)"
| "raises_value_error (PairLine a b) = (isl (py_int 16 a) \<or> isl (py_int 16 b))"
| "raises_value_error (FrameLine fn f off) = isl (py_int 16 off)"
| "raises_value_error (TagLine t) = False"
| "raises_value_error MarkerLine = False"
| "raises_value_error OtherLine = False"

fun wrong_tag :: "string \<Rightarrow> line_item \<Rightarrow> bool" where
  "wrong_tag chain_type (TagLine t) = (t \<noteq> chain_type)"
| "wrong_tag chain_type (PidLine t) = False"
| "wrong_tag chain_type (TidLine t) = False"
| "wrong_tag chain_type (PairLine a b) = False"
| "wrong_tag chain_type MarkerLine = False"
| "wrong_tag chain_type (FrameLine fn f off) = False"
| "wrong_tag chain_type OtherLine = False"

definition stops :: "string \<Rightarrow> line_item \<Rightarrow> bool" where
  "stops chain_type it \<longleftrightarrow> raises_value_error it \<or> wrong_tag chain_type it"

subsection \<open>What a block holds\<close>

text \<open>
  The pids, the tids, the (ip, sp) pairs and the (function name, filename, offset) triples
  of a list of items, each list in the order of the items, hence of the lines.
\<close>

fun pids :: "line_item list \<Rightarrow> int list" where
  "pids [] = []"
| "pids (PidLine t # its) = int_of 10 t # pids its"
| "pids (it # its) = pids its"

fun tids :: "line_item list \<Rightarrow> int list" where
  "tids [] = []"
| "tids (TidLine t # its) = int_of 10 t # tids its"
| "tids (it # its) = tids its"

fun pairs :: "line_item list \<Rightarrow> (int \<times> int) list" where
  "pairs [] = []"
| "pairs (PairLine a b # its) = (int_of 16 a, int_of 16 b) # pairs its"
| "pairs (it # its) = pairs its"

fun triples :: "line_item list \<Rightarrow> (string \<times> string \<times> int) list" where
  "triples [] = []"
| "triples (FrameLine fn f off # its) = (fn, f, int_of 16 off) # triples its"
| "triples (it # its) = triples its"

text \<open>
  A block is incomplete when it holds no pid, no tid, no pair, or a number of triples
  different from the number of pairs. The pid and the tid of the record are those of the
  last pid and tid lines. The call chain of a complete block has one node per pair, in the
  order of the lines: the \<open>j\<close>-th node holds the \<open>j\<close>-th pair and the \<open>j\<close>-th triple, and the
  bounds of the map found for its ip.
\<close>

definition last_option :: "'a list \<Rightarrow> 'a option" where
  "last_option xs = (if xs = [] then None else Some (last xs))"

definition incomplete :: "line_item list \<Rightarrow> bool" where
  "incomplete its \<longleftrightarrow>
     pids its = [] \<or> tids its = [] \<or> pairs its = [] \<or> length (triples its) \<noteq> length (pairs its)"

definition nodes :: "ProcessMaps \<Rightarrow> line_item list \<Rightarrow> CallChainNode list" where
  "nodes pm its =
     map (\<lambda>((a, b), (fn, f, off)).
            \<lparr>ip = a, sp = b, node_filename = f, vaddr_in_file = off, function_name = fn,
             map_start_addr = fst (find_bounds pm (last_option (pids its)) a),
             map_end_addr = snd (find_bounds pm (last_option (pids its)) a)\<rparr>)
         (zip (pairs its) (triples its))"

subsection \<open>The effect of the items on the variables of the loop\<close>

text \<open>
  What an item that does not stop the parser does to the variables of the loop, and the
  effect of a list of such items, from left to right.
\<close>

fun collect1 :: "line_item \<Rightarrow> parse_vars \<Rightarrow> parse_vars" where
  "collect1 (PidLine t) v =
     v\<lparr>callchain_record := (callchain_record v)\<lparr>record_pid := Some (int_of 10 t)\<rparr>\<rparr>"
| "collect1 (TidLine t) v =
     v\<lparr>callchain_record := (callchain_record v)\<lparr>record_tid := Some (int_of 10 t)\<rparr>\<rparr>"
| "collect1 (TagLine t) v = v"
| "collect1 (PairLine a b) v = v\<lparr>ips := ips v @ [int_of 16 a], sps := sps v @ [int_of 16 b]\<rparr>"
| "collect1 MarkerLine v = v\<lparr>in_callchain := True\<rparr>"
| "collect1 (FrameLine fn f off) v =
     v\<lparr>function_names := function_names v @ [fn], filenames := filenames v @ [f],
       vaddr_in_files := vaddr_in_files v @ [int_of 16 off]\<rparr>"
| "collect1 OtherLine v = v"

definition collect :: "line_item list \<Rightarrow> parse_vars \<Rightarrow> parse_vars" where
  "collect its v = foldl (\<lambda>v it. collect1 it v) v its"


subsection \<open>Example inputs\<close>

text \<open>Example input: a block of seven lines with the given header, pid token and tag.\<close>

definition ex_lines :: "string \<Rightarrow> string \<Rightarrow> string \<Rightarrow> string list" where
  "ex_lines header pid_token tag =
     [header, ''  pid '' @ pid_token, ''  tid 2'', ''  chain_type '' @ tag,
      ''  ip 0x10, sp 0x20'', ''  callchain:'', ''    f (/lib/a.so[+5])'']"

text \<open>The same block with a proper header, pid and tag, and the given offset token.\<close>

definition ex_lines_offset :: "string \<Rightarrow> string list" where
  "ex_lines_offset off =
     [''record callchain:'', ''  pid 1'', ''  tid 2'', ''  chain_type ORIGINAL_OFFLINE'',
      ''  ip 0x10, sp 0x20'', ''  callchain:'', ''    f (/lib/a.so[+'' @ off @ ''])'']"

text \<open>
  A block with two pairs and two frames, with the given tag and the given offset token of
  the second frame, followed by the header of the next record.
\<close>

definition ex_two_frames :: "string \<Rightarrow> string \<Rightarrow> string list" where
  "ex_two_frames tag off =
     [''record callchain:'', ''  pid 1'', ''  tid 2'', ''  chain_type '' @ tag,
      ''  ip 0x10, sp 0x20'', ''  ip 0x30, sp 0x40'', ''  callchain:'',
      ''    f (/lib/a.so[+5])'', ''    g (/lib/b.so[+'' @ off @ ''])'', ''record sample:'']"


section \<open>The address-space registry: proofs\<close>

subsection \<open>The loop of \<open>add\<close> on a store\<close>

lemma map_upd_notin: "e \<notin> set xs \<Longrightarrow> map (h(e := v)) xs = map h xs"
  by (induction xs) auto

lemma add_loop_sim:
  assumes "distinct es" "m \<notin> set es" "set nl \<inter> set es = {}"
    and "add_loop es m (h, nl, u) = (h', nl', u')"
  shows "(\<forall>r. r \<notin> set es \<longrightarrow> h' r = h r) \<and>
         map h' (nl' @ (if u' then [] else [m])) =
           map h nl @ (if u then concat (map (step_v (h m)) (map h es)) else ins (h m) (map h es))"
  using assms
proof (induction es arbitrary: h nl u)
  case Nil
  then show ?case by simp
next
  case (Cons e es)
  have e_m: "e \<noteq> m" and e_es: "e \<notin> set es" and e_nl: "e \<notin> set nl"
    and d: "distinct es" and m_es: "m \<notin> set es" and nl_es: "set nl \<inter> set es = {}"
    using Cons.prems by auto
  consider (a) "end' (h e) \<le> start (h m)"
    | (b) "\<not> end' (h e) \<le> start (h m)" "start (h e) < start (h m)"
    | (c) "\<not> end' (h e) \<le> start (h m)" "\<not> start (h e) < start (h m)" "start (h e) \<ge> end' (h m)"
    | (d) "\<not> end' (h e) \<le> start (h m)" "\<not> start (h e) < start (h m)" "\<not> start (h e) \<ge> end' (h m)" "end' (h e) > end' (h m)"
    | (f) "\<not> end' (h e) \<le> start (h m)" "\<not> start (h e) < start (h m)" "\<not> start (h e) \<ge> end' (h m)" "\<not> end' (h e) > end' (h m)"
    by blast
  then show ?case
  proof cases
    case a
    from Cons.prems(4) a have run: "add_loop es m (h, nl @ [e], u) = (h', nl', u')" by simp
    have "set (nl @ [e]) \<inter> set es = {}" using nl_es e_es by auto
    from Cons.IH[OF d m_es this run] a e_m e_es e_nl show ?thesis
      by (auto simp: step_v_def before_def)
  next
    case b
    define v where "v = (h e)\<lparr>end' := start (h m)\<rparr>"
    from Cons.prems(4) b have run: "add_loop es m (h(e := v), nl @ [e], u) = (h', nl', u')"
      by (simp add: v_def)
    have dj: "set (nl @ [e]) \<inter> set es = {}" using nl_es e_es by auto
    have eqs: "map (h(e := v)) es = map h es" "map (h(e := v)) nl = map h nl" "(h(e := v)) m = h m"
      using e_es e_nl e_m by (simp_all add: map_upd_notin)
    have sv: "step_v (h m) (h e) = [v]" "before (h m) (h e)"
      using b by (simp_all add: step_v_def before_def v_def)
    have eq2: "map (h(e := v)) (nl @ [e]) = map h nl @ [v]"
      using eqs by simp
    from Cons.IH[OF d m_es dj run]
    have ih1: "\<forall>r. r \<notin> set es \<longrightarrow> h' r = (h(e := v)) r"
      and ih2: "map h' (nl' @ (if u' then [] else [m])) =
           map h nl @ [v] @ (if u then concat (map (step_v (h m)) (map h es)) else ins (h m) (map h es))"
      unfolding eq2 eqs by simp_all
    have "\<forall>r. r \<notin> set (e # es) \<longrightarrow> h' r = h r" using ih1 by simp
    moreover have "map h' (nl' @ (if u' then [] else [m])) =
           map h nl @ (if u then concat (map (step_v (h m)) (map h (e # es))) else ins (h m) (map h (e # es)))"
      using ih2 sv by simp
    ultimately show ?thesis by blast
  next
    case c
    let ?nl = "(if \<not> u then nl @ [m] else nl) @ [e]"
    from Cons.prems(4) c have run: "add_loop es m (h, ?nl, True) = (h', nl', u')" by (simp add: Let_def)
    have "set ?nl \<inter> set es = {}" using nl_es e_es m_es by auto
    from Cons.IH[OF \<open>distinct es\<close> m_es this run] c e_m e_es e_nl show ?thesis
      by (auto simp: step_v_def before_def)
  next
    case d
    define v where "v = (h e)\<lparr>start := end' (h m)\<rparr>"
    let ?nl = "(if \<not> u then nl @ [m] else nl) @ [e]"
    from Cons.prems(4) d have run: "add_loop es m (h(e := v), ?nl, True) = (h', nl', u')"
      by (simp add: v_def Let_def)
    have dj: "set ?nl \<inter> set es = {}" using nl_es e_es m_es by auto
    have eqs: "map (h(e := v)) es = map h es" "map (h(e := v)) nl = map h nl" "(h(e := v)) m = h m"
      using e_es e_nl e_m by (simp_all add: map_upd_notin)
    have sv: "step_v (h m) (h e) = [v]" "\<not> before (h m) (h e)"
      using d by (simp_all add: step_v_def before_def v_def)
    have eq2: "map (h(e := v)) ?nl = map h nl @ (if u then [] else [h m]) @ [v]"
      using eqs by simp
    from Cons.IH[OF \<open>distinct es\<close> m_es dj run]
    have ih1: "\<forall>r. r \<notin> set es \<longrightarrow> h' r = (h(e := v)) r"
      and ih2: "map h' (nl' @ (if u' then [] else [m])) =
           map h nl @ (if u then [] else [h m]) @ [v] @ concat (map (step_v (h m)) (map h es))"
      unfolding eq2 eqs by simp_all
    have "\<forall>r. r \<notin> set (e # es) \<longrightarrow> h' r = h r" using ih1 by simp
    moreover have "map h' (nl' @ (if u' then [] else [m])) =
           map h nl @ (if u then concat (map (step_v (h m)) (map h (e # es))) else ins (h m) (map h (e # es)))"
      using ih2 sv by simp
    ultimately show ?thesis by blast
  next
    case f
    let ?nl = "(if \<not> u then nl @ [m] else nl)"
    from Cons.prems(4) f have run: "add_loop es m (h, ?nl, True) = (h', nl', u')" by (simp add: Let_def)
    have "set ?nl \<inter> set es = {}" using nl_es e_es m_es by auto
    from Cons.IH[OF \<open>distinct es\<close> m_es this run] f e_m e_es e_nl show ?thesis
      by (auto simp: step_v_def before_def)
  qed
qed

lemma add_loop_Cons_cases:
  obtains (keep) h1 nl1 where
      "add_loop (e # es) m (h, nl, u) = add_loop es m (h1, nl1 @ [e], u)" "nl1 = nl"
  | (ins_keep) h1 where
      "add_loop (e # es) m (h, nl, u) =
         add_loop es m (h1, (if u then nl else nl @ [m]) @ [e], True)"
  | (ins_drop)
      "add_loop (e # es) m (h, nl, u) =
         add_loop es m (h, (if u then nl else nl @ [m]), True)"
  by (cases "end' (h e) \<le> start (h m)"; cases "start (h e) < start (h m)";
      cases "start (h e) \<ge> end' (h m)"; cases "end' (h e) > end' (h m)"; cases u)
     (simp_all add: Let_def)

lemma add_loop_refs:
  assumes "add_loop es m (h, nl, u) = (h', nl', u')"
  shows "set (nl' @ (if u' then [] else [m])) \<subseteq> set nl \<union> set es \<union> {m}"
  using assms
proof (induction es arbitrary: h nl u)
  case Nil
  then show ?case by auto
next
  case (Cons e es)
  show ?case
  proof (cases rule: add_loop_Cons_cases[of e es m h nl u])
    case (keep h1 nl1)
    with Cons.prems have "add_loop es m (h1, nl @ [e], u) = (h', nl', u')" by simp
    from Cons.IH[OF this] show ?thesis by auto
  next
    case (ins_keep h1)
    with Cons.prems
    have "add_loop es m (h1, (if u then nl else nl @ [m]) @ [e], True) = (h', nl', u')" by simp
    from Cons.IH[OF this] show ?thesis by (auto split: if_splits)
  next
    case ins_drop
    with Cons.prems
    have "add_loop es m (h, (if u then nl else nl @ [m]), True) = (h', nl', u')" by simp
    from Cons.IH[OF this] show ?thesis by (auto split: if_splits)
  qed
qed

lemma add_loop_distinct:
  assumes "add_loop es m (h, nl, u) = (h', nl', u')"
    and "distinct (nl @ es)" "m \<notin> set es" "\<not> u \<longrightarrow> m \<notin> set nl"
  shows "distinct (nl' @ (if u' then [] else [m]))"
  using assms
proof (induction es arbitrary: h nl u)
  case Nil
  then show ?case by auto
next
  case (Cons e es)
  show ?case
  proof (cases rule: add_loop_Cons_cases[of e es m h nl u])
    case (keep h1 nl1)
    with Cons.prems have "add_loop es m (h1, nl @ [e], u) = (h', nl', u')" by simp
    from Cons.IH[OF this] Cons.prems(2-4) show ?thesis by auto
  next
    case (ins_keep h1)
    with Cons.prems
    have "add_loop es m (h1, (if u then nl else nl @ [m]) @ [e], True) = (h', nl', u')" by simp
    from Cons.IH[OF this] Cons.prems(2-4) show ?thesis by (auto split: if_splits)
  next
    case ins_drop
    with Cons.prems
    have "add_loop es m (h, (if u then nl else nl @ [m]), True) = (h', nl', u')" by simp
    from Cons.IH[OF this] Cons.prems(2-4) show ?thesis by (auto split: if_splits)
  qed
qed

subsection \<open>Well-formed stores are preserved\<close>

lemma wf_maps_init: "wf_maps ProcessMaps_init"
  by (simp add: wf_maps_def ProcessMaps_init_def get_list_def)

lemma add_get_list_other: "q \<noteq> pid \<Longrightarrow> get_list (add pm pid r) q = get_list pm q"
  by (simp add: add_def get_list_def split: prod.splits)

lemma add_next_ref: "next_ref (add pm pid r) = next_ref pm"
  by (simp add: add_def split: prod.splits)

lemma add_heap_other:
  assumes "distinct (get_list pm pid)" "r \<notin> set (get_list pm pid)" "x \<notin> set (get_list pm pid)"
  shows "heap (add pm pid r) x = heap pm x"
proof -
  obtain h' nl' u' where run: "add_loop (get_list pm pid) r (heap pm, [], False) = (h', nl', u')"
    by (cases "add_loop (get_list pm pid) r (heap pm, [], False)") auto
  from add_loop_sim[OF assms(1,2) _ run] assms(3) have "h' x = heap pm x" by simp
  with run show ?thesis by (simp add: add_def)
qed

lemma add_entries_same:
  assumes "distinct (get_list pm pid)" "r \<notin> set (get_list pm pid)"
  shows "entries (add pm pid r) pid = ins (heap pm r) (entries pm pid)"
proof -
  obtain h' nl' u' where run: "add_loop (get_list pm pid) r (heap pm, [], False) = (h', nl', u')"
    by (cases "add_loop (get_list pm pid) r (heap pm, [], False)") auto
  from add_loop_sim[OF assms(1,2) _ run]
  have "map h' (nl' @ (if u' then [] else [r])) = ins (heap pm r) (map (heap pm) (get_list pm pid))"
    by simp
  moreover have "get_list (add pm pid r) pid = nl' @ (if u' then [] else [r])"
    using run by (simp add: add_def get_list_def)
  moreover have "heap (add pm pid r) = h'" using run by (simp add: add_def)
  ultimately show ?thesis by (simp add: entries_def)
qed

lemma add_entries_other:
  assumes "wf_maps pm" "r \<notin> set (get_list pm pid)" "q \<noteq> pid"
  shows "entries (add pm pid r) q = entries pm q"
proof -
  have d: "distinct (get_list pm pid)" using assms(1) by (simp add: wf_maps_def)
  have "\<forall>x\<in>set (get_list pm q). x \<notin> set (get_list pm pid)"
    using assms(1,3) unfolding wf_maps_def by blast
  then have "map (heap (add pm pid r)) (get_list pm q) = map (heap pm) (get_list pm q)"
    using add_heap_other[OF d assms(2)] by (intro map_cong) auto
  then show ?thesis using assms(3) by (simp add: entries_def add_get_list_other)
qed

lemma add_wf:
  assumes "wf_maps pm" "r < next_ref pm" "\<forall>p. r \<notin> set (get_list pm p)"
  shows "wf_maps (add pm pid r)"
proof -
  obtain h' nl' u' where run: "add_loop (get_list pm pid) r (heap pm, [], False) = (h', nl', u')"
    by (cases "add_loop (get_list pm pid) r (heap pm, [], False)") auto
  let ?new = "nl' @ (if u' then [] else [r])"
  have new: "get_list (add pm pid r) pid = ?new"
    using run by (simp add: add_def get_list_def)
  have sub: "set ?new \<subseteq> set (get_list pm pid) \<union> {r}"
    using add_loop_refs[OF run] by simp
  have dis: "distinct ?new"
    using add_loop_distinct[OF run] assms(1,3) by (simp add: wf_maps_def)
  have gl: "\<And>q. get_list (add pm pid r) q = (if q = pid then ?new else get_list pm q)"
    using new add_get_list_other by simp
  show ?thesis
    unfolding wf_maps_def gl add_next_ref
  proof (intro conjI allI impI)
    fix p show "distinct (if p = pid then ?new else get_list pm p)"
      using dis assms(1) by (simp add: wf_maps_def)
  next
    fix p show "\<forall>r\<in>set (if p = pid then ?new else get_list pm p). r < next_ref pm"
      using sub assms(1,2) unfolding wf_maps_def by (auto split: if_splits)
  next
    fix p q :: int assume "p \<noteq> q"
    have dj: "\<And>a b x. a \<noteq> b \<Longrightarrow> x \<in> set (get_list pm a) \<Longrightarrow> x \<notin> set (get_list pm b)"
      using assms(1) unfolding wf_maps_def by blast
    have nr: "\<And>a. r \<notin> set (get_list pm a)" using assms(3) by blast
    have new_other: "\<And>a. a \<noteq> pid \<Longrightarrow> set ?new \<inter> set (get_list pm a) = {}"
      using sub dj nr by blast
    show "set (if p = pid then ?new else get_list pm p) \<inter>
               set (if q = pid then ?new else get_list pm q) = {}"
    proof (cases "p = pid")
      case True
      then show ?thesis using \<open>p \<noteq> q\<close> new_other[of q] by simp
    next
      case False
      then show ?thesis using \<open>p \<noteq> q\<close> new_other[of p] dj[of p q] by (cases "q = pid") auto
    qed
  qed
qed

lemma MapEntry_init_props:
  assumes "wf_maps pm" "MapEntry_init pm s e f = (pm1, r)"
  shows "wf_maps pm1" "r < next_ref pm1" "\<forall>p. r \<notin> set (get_list pm1 p)"
    "\<forall>p. entries pm1 p = entries pm p" "heap pm1 r = \<lparr>start = s, end' = e, filename = f\<rparr>"
proof -
  have pm1: "pm1 = pm\<lparr>heap := (heap pm)(next_ref pm := \<lparr>start = s, end' = e, filename = f\<rparr>),
         next_ref := Suc (next_ref pm)\<rparr>" and r: "r = next_ref pm"
    using assms(2) by (auto simp: MapEntry_init_def)
  have gl: "\<And>p. get_list pm1 p = get_list pm p" by (simp add: pm1 get_list_def)
  have lt: "\<And>p x. x \<in> set (get_list pm p) \<Longrightarrow> x < next_ref pm"
    using assms(1) by (simp add: wf_maps_def)
  show "wf_maps pm1" using assms(1) unfolding wf_maps_def gl by (auto simp: pm1 less_Suc_eq)
  show "r < next_ref pm1" by (simp add: pm1 r)
  show "\<forall>p. r \<notin> set (get_list pm1 p)" unfolding gl r using lt by blast
  show "heap pm1 r = \<lparr>start = s, end' = e, filename = f\<rparr>" by (simp add: pm1 r)
  show "\<forall>p. entries pm1 p = entries pm p"
  proof
    fix p
    have "map (heap pm1) (get_list pm p) = map (heap pm) (get_list pm p)"
      using lt[of _ p] by (intro map_cong) (auto simp: pm1)
    then show "entries pm1 p = entries pm p" by (simp add: entries_def gl)
  qed
qed

lemma apply_Mmap_entries:
  assumes "wf_maps pm"
  shows "entries (apply_event pm (MmapRecord pid s e f)) q =
           (if q = pid then ins \<lparr>start = s, end' = e, filename = f\<rparr> (entries pm pid)
            else entries pm q)"
proof -
  obtain pm1 r where mi: "MapEntry_init pm s e f = (pm1, r)"
    by (cases "MapEntry_init pm s e f") auto
  note P = MapEntry_init_props[OF assms mi]
  have d: "distinct (get_list pm1 pid)" using P(1) by (simp add: wf_maps_def)
  have "entries (add pm1 pid r) q =
          (if q = pid then ins (heap pm1 r) (entries pm1 pid) else entries pm1 q)"
    using add_entries_same[OF d] add_entries_other[OF P(1)] P(3) by simp
  then show ?thesis using mi P(4,5) by simp
qed

lemma apply_Mmap_wf:
  assumes "wf_maps pm"
  shows "wf_maps (apply_event pm (MmapRecord pid s e f))"
proof -
  obtain pm1 r where mi: "MapEntry_init pm s e f = (pm1, r)"
    by (cases "MapEntry_init pm s e f") auto
  note P = MapEntry_init_props[OF assms mi]
  show ?thesis using mi add_wf[OF P(1,2,3)] by simp
qed

subsection \<open>\<open>deepcopy\<close> and \<open>fork_pid\<close>\<close>

lemma deepcopy_loop_fresh:
  assumes "distinct rs" "dom memo \<inter> set rs = {}" "\<forall>r\<in>set rs. r < n"
    and "deepcopy_loop rs (h, n, memo, acc) = (h', n', memo', acc')"
  shows "n' = n + length rs \<and> acc' = acc @ [n..<n + length rs] \<and>
         (\<forall>x<n. h' x = h x) \<and> map h' [n..<n + length rs] = map h rs"
  using assms
proof (induction rs arbitrary: h n memo acc)
  case Nil
  then show ?case by simp
next
  case (Cons r rs)
  have none: "memo r = None" using Cons.prems(2) by auto
  with Cons.prems(4)
  have run: "deepcopy_loop rs (h(n := h r), Suc n, memo(r \<mapsto> n), acc @ [n]) = (h', n', memo', acc')"
    by simp
  have 1: "distinct rs" and 2: "dom (memo(r \<mapsto> n)) \<inter> set rs = {}"
    and 3: "\<forall>x\<in>set rs. x < Suc n"
    using Cons.prems(1-3) by auto
  from Cons.IH[OF 1 2 3 run]
  have n': "n' = Suc n + length rs" and acc': "acc' = (acc @ [n]) @ [Suc n..<Suc n + length rs]"
    and old: "\<forall>x<Suc n. h' x = (h(n := h r)) x"
    and cp: "map h' [Suc n..<Suc n + length rs] = map (h(n := h r)) rs"
    by blast+
  have rs_n: "n \<notin> set rs" using Cons.prems(3) by auto
  have "map (h(n := h r)) rs = map h rs" using rs_n by (simp add: map_upd_notin)
  with cp have cp': "map h' [Suc n..<Suc n + length rs] = map h rs" by simp
  have hn: "h' n = h r" using old by simp
  have up: "[n..<n + length (r # rs)] = n # [Suc n..<Suc n + length rs]"
    using upt_conv_Cons[of n "Suc n + length rs"] by simp
  show ?case
    unfolding up using n' acc' old cp' hn by auto
qed

lemma fork_pid_self: "fork_pid pm pid pid = pm"
  by (simp add: fork_pid_def)

lemma fork_pid_props:
  assumes "wf_maps pm" "pid \<noteq> ppid"
  shows "wf_maps (fork_pid pm pid ppid)"
    and "entries (fork_pid pm pid ppid) q = (if q = pid then entries pm ppid else entries pm q)"
    and "get_list (fork_pid pm pid ppid) q =
           (if q = pid then [next_ref pm..<next_ref pm + length (get_list pm ppid)]
            else get_list pm q)"
    and "process_maps (fork_pid pm pid ppid) pid \<noteq> None"
proof -
  let ?rs = "get_list pm ppid" and ?n = "next_ref pm"
  obtain h' n' memo' acc' where
    run: "deepcopy_loop ?rs (heap pm, ?n, Map.empty, []) = (h', n', memo', acc')"
    by (cases "deepcopy_loop ?rs (heap pm, ?n, Map.empty, [])") auto
  have d: "distinct ?rs" and lt: "\<forall>r\<in>set ?rs. r < ?n"
    using assms(1) by (simp_all add: wf_maps_def)
  from deepcopy_loop_fresh[OF d _ lt run]
  have n': "n' = ?n + length ?rs" and acc': "acc' = [?n..<?n + length ?rs]"
    and old: "\<forall>x<?n. h' x = heap pm x" and cp: "map h' [?n..<?n + length ?rs] = map (heap pm) ?rs"
    by simp_all
  have fk: "fork_pid pm pid ppid =
      pm\<lparr>heap := h', next_ref := n', process_maps := (process_maps pm)(pid \<mapsto> acc')\<rparr>"
    using assms(2) run by (simp add: fork_pid_def deepcopy_def)
  show gl: "\<And>q. get_list (fork_pid pm pid ppid) q =
           (if q = pid then [?n..<?n + length ?rs] else get_list pm q)"
    by (simp add: fk get_list_def acc')
  show "process_maps (fork_pid pm pid ppid) pid \<noteq> None" by (simp add: fk)
  have ltall: "\<And>p x. x \<in> set (get_list pm p) \<Longrightarrow> x < ?n"
    using assms(1) by (simp add: wf_maps_def)
  show "entries (fork_pid pm pid ppid) q = (if q = pid then entries pm ppid else entries pm q)"
  proof (cases "q = pid")
    case True
    then show ?thesis using cp by (simp add: entries_def gl) (simp add: fk)
  next
    case False
    have "map h' (get_list pm q) = map (heap pm) (get_list pm q)"
      using ltall[of _ q] old by (intro map_cong) auto
    with False show ?thesis by (simp add: entries_def gl) (simp add: fk)
  qed
  have nr: "next_ref (fork_pid pm pid ppid) = ?n + length ?rs" by (simp add: fk n')
  show "wf_maps (fork_pid pm pid ppid)"
    unfolding wf_maps_def gl nr
  proof (intro conjI allI impI)
    fix p show "distinct (if p = pid then [?n..<?n + length ?rs] else get_list pm p)"
      using assms(1) by (simp add: wf_maps_def)
  next
    fix p show "\<forall>r\<in>set (if p = pid then [?n..<?n + length ?rs] else get_list pm p).
                  r < ?n + length ?rs"
      using ltall[of _ p] by (auto simp: trans_less_add1)
  next
    fix p q :: int assume pq: "p \<noteq> q"
    have fresh: "\<And>a. set [?n..<?n + length ?rs] \<inter> set (get_list pm a) = {}"
      using ltall by fastforce
    have dj: "\<And>a b. a \<noteq> b \<Longrightarrow> set (get_list pm a) \<inter> set (get_list pm b) = {}"
      using assms(1) unfolding wf_maps_def by blast
    show "set (if p = pid then [?n..<?n + length ?rs] else get_list pm p) \<inter>
          set (if q = pid then [?n..<?n + length ?rs] else get_list pm q) = {}"
    proof (cases "p = pid")
      case True
      then show ?thesis using pq fresh[of q] by simp
    next
      case False
      then show ?thesis using pq fresh[of p] dj[of p q] by (cases "q = pid") auto
    qed
  qed
qed

lemma wf_apply_event: "wf_maps pm \<Longrightarrow> wf_maps (apply_event pm ev)"
proof (cases ev)
  case (MmapRecord pid s e f)
  assume "wf_maps pm" then show ?thesis unfolding MmapRecord by (rule apply_Mmap_wf)
next
  case (ForkRecord pid ppid)
  assume "wf_maps pm"
  then show ?thesis unfolding ForkRecord
    by (cases "pid = ppid") (simp_all add: fork_pid_self fork_pid_props(1))
qed

lemma wf_foldl: "wf_maps pm \<Longrightarrow> wf_maps (foldl apply_event pm evs)"
  by (induction evs arbitrary: pm) (simp_all add: wf_apply_event)

lemma wf_run_events: "wf_maps (run_events evs)"
  unfolding run_events_def by (rule wf_foldl[OF wf_maps_init])

subsection \<open>The range invariant\<close>

lemma step_v_mem:
  assumes "y \<in> set (step_v m z)" "start z < end' z"
  shows "start z \<le> start y \<and> end' y \<le> end' z \<and> start y < end' y"
  using assms by (auto simp: step_v_def split: if_splits)

lemma step_v_after:
  assumes "y \<in> set (step_v m z)" "start m \<le> start z" "start z < end' z"
  shows "end' m \<le> start y"
  using assms by (auto simp: step_v_def split: if_splits)

lemma ins_mem:
  "y \<in> set (ins m es) \<Longrightarrow> y = m \<or> (\<exists>z\<in>set es. y \<in> set (step_v m z))"
  by (induction es) (auto split: if_splits)

lemma steps_after_ok:
  assumes "ranges_ok xs" "\<forall>x\<in>set xs. start m \<le> start x"
  shows "ranges_ok (concat (map (step_v m) xs)) \<and>
         (\<forall>y\<in>set (concat (map (step_v m) xs)). end' m \<le> start y)"
  using assms
proof (induction xs)
  case Nil
  then show ?case by (simp add: ranges_ok_def)
next
  case (Cons x xs)
  have xok: "start x < end' x" and xs_ok: "ranges_ok xs"
    and xlt: "\<forall>z\<in>set xs. end' x \<le> start z" and mx: "start m \<le> start x"
    and mxs: "\<forall>z\<in>set xs. start m \<le> start z"
    using Cons.prems by (auto simp: ranges_ok_def)
  from Cons.IH[OF xs_ok mxs]
  have ih1: "ranges_ok (concat (map (step_v m) xs))"
    and ih2: "\<forall>y\<in>set (concat (map (step_v m) xs)). end' m \<le> start y" by blast+
  have zok: "\<And>z. z \<in> set xs \<Longrightarrow> start z < end' z" using xs_ok by (simp add: ranges_ok_def)
  have cross: "\<forall>a\<in>set (step_v m x). \<forall>b\<in>set (concat (map (step_v m) xs)). end' a \<le> start b"
  proof (intro ballI)
    fix a b assume a: "a \<in> set (step_v m x)" and b: "b \<in> set (concat (map (step_v m) xs))"
    from b obtain z where z: "z \<in> set xs" "b \<in> set (step_v m z)" by auto
    from step_v_mem[OF a xok] have "end' a \<le> end' x" by simp
    also have "\<dots> \<le> start z" using xlt z(1) by simp
    also have "\<dots> \<le> start b" using step_v_mem[OF z(2) zok[OF z(1)]] by simp
    finally show "end' a \<le> start b" .
  qed
  have sx: "sorted_wrt (\<lambda>a b. end' a \<le> start b) (step_v m x)"
    by (simp add: step_v_def)
  have okx: "\<forall>a\<in>set (step_v m x). start a < end' a"
    using step_v_mem[OF _ xok] by blast
  have afx: "\<forall>a\<in>set (step_v m x). end' m \<le> start a"
    using step_v_after[OF _ mx xok] by blast
  have "ranges_ok (step_v m x @ concat (map (step_v m) xs))"
    using ih1 cross sx okx unfolding ranges_ok_def sorted_wrt_append by auto
  then show ?case using ih2 afx by auto
qed

lemma ins_ranges_ok:
  assumes "ranges_ok es" "start m < end' m"
  shows "ranges_ok (ins m es)"
  using assms(1)
proof (induction es)
  case Nil
  then show ?case using assms(2) by (simp add: ranges_ok_def)
next
  case (Cons e es)
  have eok: "start e < end' e" and es_ok: "ranges_ok es"
    and elt: "\<forall>z\<in>set es. end' e \<le> start z"
    using Cons.prems by (auto simp: ranges_ok_def)
  have zok: "\<And>z. z \<in> set es \<Longrightarrow> start z < end' z" using es_ok by (simp add: ranges_ok_def)
  show ?case
  proof (cases "before m e")
    case True
    have ih: "ranges_ok (ins m es)" by (rule Cons.IH[OF es_ok])
    have sx: "sorted_wrt (\<lambda>a b. end' a \<le> start b) (step_v m e)"
      by (simp add: step_v_def)
    have okx: "\<forall>a\<in>set (step_v m e). start a < end' a"
      using step_v_mem[OF _ eok] by blast
    have cross: "\<forall>a\<in>set (step_v m e). \<forall>b\<in>set (ins m es). end' a \<le> start b"
    proof (intro ballI)
      fix a b assume a: "a \<in> set (step_v m e)" and b: "b \<in> set (ins m es)"
      from ins_mem[OF b] show "end' a \<le> start b"
      proof
        assume "b = m"
        then show ?thesis using a True eok by (auto simp: step_v_def before_def split: if_splits)
      next
        assume "\<exists>z\<in>set es. b \<in> set (step_v m z)"
        then obtain z where z: "z \<in> set es" "b \<in> set (step_v m z)" by auto
        from step_v_mem[OF a eok] have "end' a \<le> end' e" by simp
        also have "\<dots> \<le> start z" using elt z(1) by simp
        also have "\<dots> \<le> start b" using step_v_mem[OF z(2) zok[OF z(1)]] by simp
        finally show ?thesis .
      qed
    qed
    have "ranges_ok (step_v m e @ ins m es)"
      using ih cross sx okx unfolding ranges_ok_def sorted_wrt_append by auto
    then show ?thesis using True by simp
  next
    case False
    then have me: "start m \<le> start e" by (simp add: before_def)
    have all: "\<forall>x\<in>set (e # es). start m \<le> start x"
      using me elt eok by fastforce
    from steps_after_ok[OF Cons.prems all]
    have "ranges_ok (concat (map (step_v m) (e # es)))"
      and "\<forall>y\<in>set (concat (map (step_v m) (e # es))). end' m \<le> start y" by blast+
    then have "ranges_ok (m # concat (map (step_v m) (e # es)))"
      using assms(2) unfolding ranges_ok_def by simp
    then show ?thesis using False by simp
  qed
qed

lemma ranges_apply_event:
  assumes "wf_maps pm" "\<forall>p. ranges_ok (entries pm p)" "valid_event ev"
  shows "ranges_ok (entries (apply_event pm ev) q)"
proof (cases ev)
  case (MmapRecord pid s e f)
  then show ?thesis
    using assms ins_ranges_ok[of "entries pm pid" "\<lparr>start = s, end' = e, filename = f\<rparr>"]
    by (simp only: apply_Mmap_entries[OF assms(1)]) simp
next
  case (ForkRecord pid ppid)
  then show ?thesis
    using assms fork_pid_props(2)[OF assms(1)]
    by (cases "pid = ppid") (simp_all add: fork_pid_self)
qed

lemma ranges_foldl:
  assumes "wf_maps pm" "\<forall>p. ranges_ok (entries pm p)" "\<forall>ev\<in>set evs. valid_event ev"
  shows "ranges_ok (entries (foldl apply_event pm evs) q)"
  using assms
proof (induction evs arbitrary: pm)
  case Nil
  then show ?case by simp
next
  case (Cons ev evs)
  have "wf_maps (apply_event pm ev)" using Cons.prems(1) by (rule wf_apply_event)
  moreover have "\<forall>p. ranges_ok (entries (apply_event pm ev) p)"
    using ranges_apply_event[OF Cons.prems(1,2)] Cons.prems(3) by simp
  ultimately show ?case using Cons.IH Cons.prems(3) by simp
qed

lemma ranges_run_events:
  assumes "\<forall>ev\<in>set evs. valid_event ev"
  shows "ranges_ok (entries (run_events evs) q)"
  unfolding run_events_def
  by (rule ranges_foldl[OF wf_maps_init _ assms])
     (simp add: entries_def get_list_def ProcessMaps_init_def ranges_ok_def)

subsection \<open>Binary search and \<open>find\<close>\<close>

declare bisect_right.simps [simp del]

lemma bisect_right_spec:
  assumes "\<forall>i j. i \<le> j \<and> j < length a \<longrightarrow> start (h (a ! i)) \<le> start (h (a ! j))"
    and "lo \<le> hi" "hi \<le> length a"
    and "\<forall>j<lo. start (h (a ! j)) \<le> x"
    and "\<forall>j. hi \<le> j \<and> j < length a \<longrightarrow> x < start (h (a ! j))"
  shows "bisect_right h a x lo hi \<le> length a \<and>
         (\<forall>j<bisect_right h a x lo hi. start (h (a ! j)) \<le> x) \<and>
         (\<forall>j. bisect_right h a x lo hi \<le> j \<and> j < length a \<longrightarrow> x < start (h (a ! j)))"
  using assms
proof (induction h a x lo hi rule: bisect_right.induct)
  case (1 h a x lo hi)
  show ?case
  proof (cases "lo < hi")
    case False
    with "1.prems" have "lo = hi" by simp
    moreover have "bisect_right h a x lo hi = lo"
      using False by (subst bisect_right.simps) simp
    ultimately show ?thesis using "1.prems" by simp
  next
    case True
    define mid where "mid = (lo + hi) div 2"
    have mid: "lo \<le> mid" "mid < hi" using True by (simp_all add: mid_def)
    have midlen: "mid < length a" using mid "1.prems"(3) by simp
    show ?thesis
    proof (cases "x < start (h (a ! mid))")
      case lt: True
      have eq: "bisect_right h a x lo hi = bisect_right h a x lo mid"
        using True lt by (subst bisect_right.simps) (simp add: mid_def Let_def)
      have up: "\<forall>j. mid \<le> j \<and> j < length a \<longrightarrow> x < start (h (a ! j))"
      proof (intro allI impI)
        fix j assume j: "mid \<le> j \<and> j < length a"
        then have "start (h (a ! mid)) \<le> start (h (a ! j))" using "1.prems"(1) by blast
        with lt show "x < start (h (a ! j))" by simp
      qed
      have "mid \<le> length a" using midlen by simp
      from "1.IH"(1)[OF True mid_def[symmetric, THEN sym] lt "1.prems"(1) mid(1) this "1.prems"(4) up]
      show ?thesis unfolding eq .
    next
      case ge: False
      have eq: "bisect_right h a x lo hi = bisect_right h a x (mid + 1) hi"
        using True ge by (subst bisect_right.simps) (simp add: mid_def Let_def)
      have low: "\<forall>j<mid + 1. start (h (a ! j)) \<le> x"
      proof (intro allI impI)
        fix j assume "j < mid + 1"
        then have "j \<le> mid \<and> mid < length a" using midlen by simp
        then have "start (h (a ! j)) \<le> start (h (a ! mid))" using "1.prems"(1) by blast
        with ge show "start (h (a ! j)) \<le> x" by simp
      qed
      have "mid + 1 \<le> hi" using mid by simp
      from "1.IH"(2)[OF True mid_def[symmetric, THEN sym] ge "1.prems"(1) this "1.prems"(3) low "1.prems"(5)]
      show ?thesis unfolding eq .
    qed
  qed
qed

lemma ranges_ok_nth:
  assumes "ranges_ok vs" "i < j" "j < length vs"
  shows "end' (vs ! i) \<le> start (vs ! j)"
  using assms sorted_wrt_nth_less[of "\<lambda>a b. end' a \<le> start b" vs i j]
  by (simp add: ranges_ok_def)

lemma ranges_ok_start_mono:
  assumes "ranges_ok vs" "i \<le> j" "j < length vs"
  shows "start (vs ! i) \<le> start (vs ! j)"
proof (cases "i = j")
  case True then show ?thesis by simp
next
  case False
  then have ij: "i < j" using assms(2) by simp
  have "start (vs ! i) < end' (vs ! i)" using assms(1,3) ij by (simp add: ranges_ok_def)
  with ranges_ok_nth[OF assms(1) ij assms(3)] show ?thesis by simp
qed

lemma find_entry_iff:
  assumes "ranges_ok (entries pm pid)"
  shows "find_entry pm pid addr = Some r \<longleftrightarrow>
           r \<in> set (get_list pm pid) \<and> start (heap pm r) \<le> addr \<and> addr < end' (heap pm r)"
proof -
  define l where "l = get_list pm pid"
  define h where "h = heap pm"
  define pos where "pos = bisect_right h l addr 0 (length l)"
  have ok: "ranges_ok (map h l)" using assms by (simp add: entries_def l_def h_def)
  have mono: "\<forall>i j. i \<le> j \<and> j < length l \<longrightarrow> start (h (l ! i)) \<le> start (h (l ! j))"
    using ranges_ok_start_mono[OF ok] by auto
  from bisect_right_spec[OF mono, of 0 "length l" addr]
  have pos_le: "pos \<le> length l" and P1: "\<forall>j<pos. start (h (l ! j)) \<le> addr"
    and P2: "\<forall>j. pos \<le> j \<and> j < length l \<longrightarrow> addr < start (h (l ! j))"
    by (simp_all add: pos_def)
  have fe: "find_entry pm pid addr =
      (if pos > 0 \<and> end' (h (l ! (pos - 1))) > addr then Some (l ! (pos - 1)) else None)"
    by (simp add: find_entry_def Let_def l_def h_def pos_def)
  show ?thesis
  proof
    assume "find_entry pm pid addr = Some r"
    with fe have p: "pos > 0" "end' (h (l ! (pos - 1))) > addr" "r = l ! (pos - 1)"
      by (auto split: if_splits)
    then have "pos - 1 < length l" "pos - 1 < pos" using pos_le by simp_all
    then show "r \<in> set (get_list pm pid) \<and> start (heap pm r) \<le> addr \<and> addr < end' (heap pm r)"
      using p P1 by (auto simp: l_def[symmetric] h_def[symmetric])
  next
    assume "r \<in> set (get_list pm pid) \<and> start (heap pm r) \<le> addr \<and> addr < end' (heap pm r)"
    then obtain k where k: "k < length l" "r = l ! k" "start (h r) \<le> addr" "addr < end' (h r)"
      by (auto simp: l_def[symmetric] h_def[symmetric] in_set_conv_nth)
    have kpos: "k < pos"
    proof (rule ccontr)
      assume "\<not> k < pos"
      then have "addr < start (h (l ! k))" using P2 k(1) by simp
      with k show False by simp
    qed
    have "k = pos - 1"
    proof (rule ccontr)
      assume "k \<noteq> pos - 1"
      then have lt: "k < pos - 1" using kpos by simp
      have "pos - 1 < length l" using kpos pos_le by simp
      from ranges_ok_nth[OF ok lt] this k(1) have "end' (h (l ! k)) \<le> start (h (l ! (pos - 1)))"
        by simp
      also have "\<dots> \<le> addr" using P1 kpos by simp
      finally show False using k by simp
    qed
    then show "find_entry pm pid addr = Some r" using fe k kpos by simp
  qed
qed

subsection \<open>Events for one pid leave the other pids alone\<close>

lemma entries_frame:
  assumes "wf_maps pm" "target ev \<noteq> q"
  shows "entries (apply_event pm ev) q = entries pm q"
proof (cases ev)
  case (MmapRecord pid s e f)
  then show ?thesis using assms(2) by (simp only: apply_Mmap_entries[OF assms(1)]) simp
next
  case (ForkRecord pid ppid)
  then show ?thesis
    using assms fork_pid_props(2)[OF assms(1), of pid ppid q]
    by (cases "pid = ppid") (simp_all add: fork_pid_self)
qed

lemma entries_frame_foldl:
  assumes "wf_maps pm" "\<forall>ev\<in>set evs. target ev \<noteq> q"
  shows "entries (foldl apply_event pm evs) q = entries pm q"
  using assms
proof (induction evs arbitrary: pm)
  case Nil
  then show ?case by simp
next
  case (Cons ev evs)
  have "entries (foldl apply_event (apply_event pm ev) evs) q = entries (apply_event pm ev) q"
    using Cons.IH[OF wf_apply_event[OF Cons.prems(1)]] Cons.prems(2) by simp
  also have "\<dots> = entries pm q" using entries_frame[OF Cons.prems(1)] Cons.prems(2) by simp
  finally show ?case by simp
qed

lemma insert_all_other:
  assumes "wf_maps pm" "p \<noteq> q"
  shows "entries (insert_all pm p ms) q = entries pm q"
  unfolding insert_all_def
  by (rule entries_frame_foldl[OF assms(1)]) (use assms(2) in auto)

subsection \<open>The claims about the registry\<close>

text \<open>
  Claim C1 says that inserting \<open>[0,100)\<close> with filename \<open>a\<close> and then \<open>[10,20)\<close> with
  filename \<open>b\<close> into an empty list leaves the three ranges \<open>[0,10)@a\<close>, \<open>[10,20)@b\<close>,
  \<open>[20,100)@a\<close>. The loop of \<open>add\<close> never creates an object: for the stored entry
  \<open>[0,100)\<close> it takes the branch \<open>entry.start < map_entry.start\<close>, which only sets
  \<open>entry.end = map_entry.start\<close>. The code therefore leaves the two ranges \<open>[0,10)@a\<close>,
  \<open>[10,20)@b\<close>; the tail \<open>[20,100)\<close> is lost, and an address in it, such as 50, is no
  longer found.
\<close>
theorem add_inside_existing_range_drops_tail:
  "entries (run_events [MmapRecord pid 0 100 ''a'', MmapRecord pid 10 20 ''b'']) pid =
     [\<lparr>start = 0, end' = 10, filename = ''a''\<rparr>, \<lparr>start = 10, end' = 20, filename = ''b''\<rparr>] \<and>
   find_entry (run_events [MmapRecord pid 0 100 ''a'', MmapRecord pid 10 20 ''b'']) pid 50 = None"
  by (simp add: run_events_def entries_def ProcessMaps_init_def MapEntry_init_def add_def
      get_list_def find_entry_def bisect_right.simps)

text \<open>
  Claim C2: after any finite sequence of inserts whose ranges satisfy \<open>start < end\<close>
  (forks may be interleaved), for every pid the stored list is sorted ascending by
  \<open>start\<close> (strictly), every stored range satisfies \<open>start < end\<close>, and the stored ranges,
  as half-open intervals, are pairwise disjoint.
\<close>
theorem add_keeps_sorted_disjoint:
  assumes "\<forall>ev\<in>set evs. valid_event ev"
  shows "sorted_wrt (\<lambda>a b. start a < start b) (entries (run_events evs) pid) \<and>
         (\<forall>e\<in>set (entries (run_events evs) pid). start e < end' e) \<and>
         (\<forall>i j. i < j \<and> j < length (entries (run_events evs) pid) \<longrightarrow>
            {start (entries (run_events evs) pid ! i) ..< end' (entries (run_events evs) pid ! i)} \<inter>
            {start (entries (run_events evs) pid ! j) ..< end' (entries (run_events evs) pid ! j)} = {})"
proof -
  define vs where "vs = entries (run_events evs) pid"
  have ok: "ranges_ok vs" unfolding vs_def by (rule ranges_run_events[OF assms])
  have pos: "\<forall>e\<in>set vs. start e < end' e" using ok by (simp add: ranges_ok_def)
  have lt: "\<And>i j. i < j \<Longrightarrow> j < length vs \<Longrightarrow> end' (vs ! i) \<le> start (vs ! j)"
    using ranges_ok_nth[OF ok] by blast
  have "sorted_wrt (\<lambda>a b. start a < start b) vs"
    unfolding sorted_wrt_iff_nth_less
  proof (intro allI impI)
    fix i j assume "i < j" "j < length vs"
    then have "end' (vs ! i) \<le> start (vs ! j)" "start (vs ! i) < end' (vs ! i)"
      using lt pos by simp_all
    then show "start (vs ! i) < start (vs ! j)" by simp
  qed
  moreover have "\<forall>i j. i < j \<and> j < length vs \<longrightarrow>
      {start (vs ! i) ..< end' (vs ! i)} \<inter> {start (vs ! j) ..< end' (vs ! j)} = {}"
    using lt by fastforce
  ultimately show ?thesis using pos unfolding vs_def by blast
qed

theorem add_keeps_sorted_disjoint_witness:
  "list_all valid_event [MmapRecord 1 0 100 ''a'', MmapRecord 1 50 150 ''b''] \<and>
   sorted_wrt (\<lambda>a b. start a < start b)
     (entries (run_events [MmapRecord 1 0 100 ''a'', MmapRecord 1 50 150 ''b'']) 1) \<and>
   entries (run_events [MmapRecord 1 0 100 ''a'', MmapRecord 1 50 150 ''b'']) 1 =
     [\<lparr>start = 0, end' = 50, filename = ''a''\<rparr>, \<lparr>start = 50, end' = 150, filename = ''b''\<rparr>]"
proof -
  have v: "\<forall>ev\<in>set [MmapRecord 1 0 100 ''a'', MmapRecord 1 50 150 ''b'']. valid_event ev"
    by simp
  have e: "entries (run_events [MmapRecord 1 0 100 ''a'', MmapRecord 1 50 150 ''b'']) 1 =
     [\<lparr>start = 0, end' = 50, filename = ''a''\<rparr>, \<lparr>start = 50, end' = 150, filename = ''b''\<rparr>]"
    by (simp add: run_events_def entries_def ProcessMaps_init_def MapEntry_init_def add_def
      get_list_def)
  from add_keeps_sorted_disjoint[OF v, of 1] e show ?thesis by simp
qed

text \<open>
  Claim C3, as stated, says that an address equal to the exclusive end of a stored range is
  never found. After inserting \<open>[0,10)@a\<close> and \<open>[10,20)@b\<close> the address 10 is the exclusive
  end of the first range, and \<open>find\<close> returns the second range, which starts there.
\<close>
theorem find_at_exclusive_end_counterexample:
  "entries (run_events [MmapRecord 1 0 10 ''a'', MmapRecord 1 10 20 ''b'']) 1 =
     [\<lparr>start = 0, end' = 10, filename = ''a''\<rparr>, \<lparr>start = 10, end' = 20, filename = ''b''\<rparr>] \<and>
   map_option (heap (run_events [MmapRecord 1 0 10 ''a'', MmapRecord 1 10 20 ''b'']))
     (find_entry (run_events [MmapRecord 1 0 10 ''a'', MmapRecord 1 10 20 ''b'']) 1 10) =
     Some \<lparr>start = 10, end' = 20, filename = ''b''\<rparr>"
  by (simp add: run_events_def entries_def ProcessMaps_init_def MapEntry_init_def add_def
      get_list_def find_entry_def bisect_right.simps)

text \<open>
  Claim C3, amended: in every registry built from inserts with \<open>start < end\<close> and forks,
  \<open>find(pid, addr)\<close> returns a stored object of that pid exactly when this object covers
  \<open>addr\<close> (\<open>start \<le> addr < end\<close>), and returns \<open>None\<close> exactly when no stored object of
  the pid covers \<open>addr\<close>. In particular: the range whose exclusive end is \<open>addr\<close> is never
  the one returned, and the result is \<open>None\<close> unless another stored range starts at \<open>addr\<close>;
  an address below every stored start is not found; an address queried for a pid with no
  stored ranges is not found.
\<close>
theorem find_entry_correct:
  assumes "\<forall>ev\<in>set evs. valid_event ev"
  shows "(find_entry (run_events evs) pid addr = Some r \<longleftrightarrow>
            r \<in> set (get_list (run_events evs) pid) \<and> covers (run_events evs) r addr) \<and>
         (find_entry (run_events evs) pid addr = None \<longleftrightarrow>
            (\<forall>x\<in>set (get_list (run_events evs) pid). \<not> covers (run_events evs) x addr)) \<and>
         (r \<in> set (get_list (run_events evs) pid) \<and> addr = end' (heap (run_events evs) r) \<longrightarrow>
            find_entry (run_events evs) pid addr \<noteq> Some r \<and>
            ((\<forall>x\<in>set (get_list (run_events evs) pid). start (heap (run_events evs) x) \<noteq> addr) \<longrightarrow>
               find_entry (run_events evs) pid addr = None)) \<and>
         ((\<forall>x\<in>set (get_list (run_events evs) pid). addr < start (heap (run_events evs) x)) \<longrightarrow>
            find_entry (run_events evs) pid addr = None) \<and>
         (get_list (run_events evs) pid = [] \<longrightarrow> find_entry (run_events evs) pid addr = None)"
proof -
  define pm where "pm = run_events evs"
  define l where "l = get_list pm pid"
  have ok: "ranges_ok (entries pm pid)" unfolding pm_def by (rule ranges_run_events[OF assms])
  have iff: "\<And>x. find_entry pm pid addr = Some x \<longleftrightarrow> x \<in> set l \<and> covers pm x addr"
    unfolding covers_def l_def by (rule find_entry_iff[OF ok])
  have none: "find_entry pm pid addr = None \<longleftrightarrow> (\<forall>x\<in>set l. \<not> covers pm x addr)"
  proof (cases "find_entry pm pid addr")
    case None
    then show ?thesis using iff by auto
  next
    case (Some x)
    then show ?thesis using iff[of x] by auto
  qed
  have at_end: "find_entry pm pid addr \<noteq> Some r \<and>
      ((\<forall>x\<in>set l. start (heap pm x) \<noteq> addr) \<longrightarrow> find_entry pm pid addr = None)"
    if r: "r \<in> set l" "addr = end' (heap pm r)"
  proof
    show "find_entry pm pid addr \<noteq> Some r" using iff[of r] r(2) by (simp add: covers_def)
    show "(\<forall>x\<in>set l. start (heap pm x) \<noteq> addr) \<longrightarrow> find_entry pm pid addr = None"
    proof
      assume ns: "\<forall>x\<in>set l. start (heap pm x) \<noteq> addr"
      show "find_entry pm pid addr = None"
      proof (rule ccontr)
        assume "find_entry pm pid addr \<noteq> None"
        with none obtain x where x: "x \<in> set l" "covers pm x addr" by auto
        from r(1) obtain i where i: "i < length l" "l ! i = r" by (auto simp: in_set_conv_nth)
        from x(1) obtain j where j: "j < length l" "l ! j = x" by (auto simp: in_set_conv_nth)
        have len: "length (entries pm pid) = length l" by (simp add: entries_def l_def)
        have nth: "\<And>k. k < length l \<Longrightarrow> entries pm pid ! k = heap pm (l ! k)"
          by (simp add: entries_def l_def)
        have rpos: "start (heap pm r) < end' (heap pm r)"
          using ok r(1) by (auto simp: ranges_ok_def entries_def l_def)
        consider "i < j" | "i = j" | "j < i" by linarith
        then show False
        proof cases
          case 1
          from ranges_ok_nth[OF ok 1] j i len nth
          have "end' (heap pm r) \<le> start (heap pm x)" by simp
          with x(2) r(2) ns x(1) show False by (auto simp: covers_def)
        next
          case 2
          with i j x(2) r(2) show False by (simp add: covers_def)
        next
          case 3
          from ranges_ok_nth[OF ok 3] j i len nth
          have "end' (heap pm x) \<le> start (heap pm r)" by simp
          with x(2) r(2) rpos show False by (simp add: covers_def)
        qed
      qed
    qed
  qed
  have below: "(\<forall>x\<in>set l. addr < start (heap pm x)) \<longrightarrow> find_entry pm pid addr = None"
    using none by (auto simp: covers_def)
  have empty: "l = [] \<longrightarrow> find_entry pm pid addr = None" using none by auto
  have at_end': "r \<in> set l \<and> addr = end' (heap pm r) \<longrightarrow>
      find_entry pm pid addr \<noteq> Some r \<and>
      ((\<forall>x\<in>set l. start (heap pm x) \<noteq> addr) \<longrightarrow> find_entry pm pid addr = None)"
  proof (intro impI, elim conjE)
    assume "r \<in> set l" "addr = end' (heap pm r)"
    then show "find_entry pm pid addr \<noteq> Some r \<and>
      ((\<forall>x\<in>set l. start (heap pm x) \<noteq> addr) \<longrightarrow> find_entry pm pid addr = None)"
      by (rule at_end)
  qed
  show ?thesis
    unfolding pm_def[symmetric] l_def[symmetric]
    by (intro conjI) (rule iff none at_end' below empty)+
qed

theorem find_entry_correct_witness:
  "list_all valid_event [MmapRecord 1 0 10 ''a'', MmapRecord 1 30 40 ''b''] \<and>
   find_entry (run_events [MmapRecord 1 0 10 ''a'', MmapRecord 1 30 40 ''b'']) 1 5 = Some 0 \<and>
   covers (run_events [MmapRecord 1 0 10 ''a'', MmapRecord 1 30 40 ''b'']) 0 5 \<and>
   find_entry (run_events [MmapRecord 1 0 10 ''a'', MmapRecord 1 30 40 ''b'']) 1 10 = None \<and>
   find_entry (run_events [MmapRecord 1 0 10 ''a'', MmapRecord 1 30 40 ''b'']) 1 (- 5) = None \<and>
   find_entry (run_events [MmapRecord 1 0 10 ''a'', MmapRecord 1 30 40 ''b'']) 2 5 = None"
proof -
  define pm where "pm = run_events [MmapRecord 1 0 10 ''a'', MmapRecord 1 30 40 ''b'']"
  have v: "\<forall>ev\<in>set [MmapRecord 1 0 10 ''a'', MmapRecord 1 30 40 ''b'']. valid_event ev"
    by simp
  have l: "get_list pm 1 = [0, Suc 0]" "get_list pm 2 = []"
    by (simp_all add: pm_def run_events_def ProcessMaps_init_def MapEntry_init_def add_def
        get_list_def)
  have h: "heap pm 0 = \<lparr>start = 0, end' = 10, filename = ''a''\<rparr>"
    "heap pm (Suc 0) = \<lparr>start = 30, end' = 40, filename = ''b''\<rparr>"
    by (simp_all add: pm_def run_events_def ProcessMaps_init_def MapEntry_init_def add_def
        get_list_def)
  have hit: "find_entry pm 1 5 = Some 0" "covers pm 0 5"
    using find_entry_correct[OF v, of 1 5 0] unfolding pm_def[symmetric]
    by (simp_all add: l h covers_def)
  have at_end: "find_entry pm 1 10 = None"
    using find_entry_correct[OF v, of 1 10 0] unfolding pm_def[symmetric]
    by (simp add: l h covers_def)
  have below: "find_entry pm 1 (- 5) = None"
    using find_entry_correct[OF v, of 1 "- 5" 0] unfolding pm_def[symmetric]
    by (simp add: l h covers_def)
  have absent: "find_entry pm 2 5 = None"
    using find_entry_correct[OF v, of 2 5 0] unfolding pm_def[symmetric]
    by (simp add: l h covers_def)
  show ?thesis
    using hit at_end below absent unfolding pm_def by simp
qed

text \<open>
  Claim C4: in every registry built from inserts and forks, \<open>fork_pid(pid, pid)\<close> leaves
  the whole state unchanged. For \<open>pid \<noteq> ppid\<close> the child's list holds the same values as
  the parent's list held (which still holds them), in objects none of which is shared with
  the parent; every sequence of further inserts into the parent leaves the child's ranges
  unchanged, and every sequence of further inserts into the child leaves the parent's
  ranges unchanged.
\<close>
theorem fork_pid_independent_copy:
  "fork_pid (run_events evs) pid pid = run_events evs \<and>
   (pid \<noteq> ppid \<longrightarrow>
      entries (fork_pid (run_events evs) pid ppid) pid = entries (run_events evs) ppid \<and>
      entries (fork_pid (run_events evs) pid ppid) ppid = entries (run_events evs) ppid \<and>
      set (get_list (fork_pid (run_events evs) pid ppid) pid) \<inter>
        set (get_list (fork_pid (run_events evs) pid ppid) ppid) = {} \<and>
      entries (insert_all (fork_pid (run_events evs) pid ppid) ppid ms) pid =
        entries (fork_pid (run_events evs) pid ppid) pid \<and>
      entries (insert_all (fork_pid (run_events evs) pid ppid) pid ms) ppid =
        entries (fork_pid (run_events evs) pid ppid) ppid)"
proof (intro conjI impI)
  show "fork_pid (run_events evs) pid pid = run_events evs" by (rule fork_pid_self)
next
  assume ne: "pid \<noteq> ppid"
  note wf = wf_run_events[of evs]
  note F = fork_pid_props[OF wf ne]
  show "entries (fork_pid (run_events evs) pid ppid) pid = entries (run_events evs) ppid"
    using F(2)[of pid] by simp
  show "entries (fork_pid (run_events evs) pid ppid) ppid = entries (run_events evs) ppid"
    using F(2)[of ppid] ne by simp
  show "set (get_list (fork_pid (run_events evs) pid ppid) pid) \<inter>
        set (get_list (fork_pid (run_events evs) pid ppid) ppid) = {}"
    using F(1) ne unfolding wf_maps_def by blast
  show "entries (insert_all (fork_pid (run_events evs) pid ppid) ppid ms) pid =
        entries (fork_pid (run_events evs) pid ppid) pid"
    using insert_all_other[OF F(1), of ppid pid ms] ne by simp
  show "entries (insert_all (fork_pid (run_events evs) pid ppid) pid ms) ppid =
        entries (fork_pid (run_events evs) pid ppid) ppid"
    using insert_all_other[OF F(1), of pid ppid ms] ne by simp
qed

theorem fork_pid_independent_copy_witness:
  "(2::int) \<noteq> 1 \<and>
   entries (insert_all (fork_pid (run_events [MmapRecord 1 0 100 ''a'']) 2 1) 1 [(50, 150, ''b'')]) 2 =
     [\<lparr>start = 0, end' = 100, filename = ''a''\<rparr>] \<and>
   entries (insert_all (fork_pid (run_events [MmapRecord 1 0 100 ''a'']) 2 1) 1 [(50, 150, ''b'')]) 1 =
     [\<lparr>start = 0, end' = 50, filename = ''a''\<rparr>, \<lparr>start = 50, end' = 150, filename = ''b''\<rparr>]"
proof -
  have e: "entries (run_events [MmapRecord 1 0 100 ''a'']) 1 =
      [\<lparr>start = 0, end' = 100, filename = ''a''\<rparr>]"
    by (simp add: run_events_def entries_def ProcessMaps_init_def MapEntry_init_def add_def
      get_list_def)
  have p: "entries (insert_all (fork_pid (run_events [MmapRecord 1 0 100 ''a'']) 2 1) 1 [(50, 150, ''b'')]) 1 =
     [\<lparr>start = 0, end' = 50, filename = ''a''\<rparr>, \<lparr>start = 50, end' = 150, filename = ''b''\<rparr>]"
    by (simp add: run_events_def entries_def ProcessMaps_init_def MapEntry_init_def add_def
      get_list_def insert_all_def fork_pid_def deepcopy_def)
  from fork_pid_independent_copy[of "[MmapRecord 1 0 100 ''a'']" 2 1 "[(50, 150, ''b'')]"] e p
  show ?thesis by simp
qed

text \<open>
  Claim C10: for \<open>pid \<noteq> ppid\<close>, in every registry built from inserts and forks,
  after \<open>fork_pid(pid, ppid)\<close> the child's list holds exactly the values of the parent's
  list, in new objects (none of the objects of the child's previous list remains), whatever
  the child's list was before; the child then has an entry in the dictionary, and when the
  parent has none this entry is the empty list.
\<close>
theorem fork_pid_overwrites_child:
  assumes "pid \<noteq> ppid"
  shows "entries (fork_pid (run_events evs) pid ppid) pid = entries (run_events evs) ppid \<and>
         set (get_list (fork_pid (run_events evs) pid ppid) pid) \<inter>
           set (get_list (run_events evs) pid) = {} \<and>
         process_maps (fork_pid (run_events evs) pid ppid) pid \<noteq> None \<and>
         (process_maps (run_events evs) ppid = None \<longrightarrow>
            process_maps (fork_pid (run_events evs) pid ppid) pid = Some [])"
proof -
  note wf = wf_run_events[of evs]
  note F = fork_pid_props[OF wf assms]
  have "entries (fork_pid (run_events evs) pid ppid) pid = entries (run_events evs) ppid"
    using F(2)[of pid] by simp
  moreover have "set (get_list (fork_pid (run_events evs) pid ppid) pid) \<inter>
           set (get_list (run_events evs) pid) = {}"
    using F(3)[of pid] wf unfolding wf_maps_def by fastforce
  moreover have "process_maps (run_events evs) ppid = None \<longrightarrow>
            process_maps (fork_pid (run_events evs) pid ppid) pid = Some []"
    using assms by (simp add: fork_pid_def deepcopy_def get_list_def)
  ultimately show ?thesis using F(4) by blast
qed

theorem fork_pid_overwrites_child_witness:
  "(2::int) \<noteq> 1 \<and>
   entries (run_events [MmapRecord 1 0 100 ''a'', MmapRecord 2 7 9 ''c'']) 2 =
     [\<lparr>start = 7, end' = 9, filename = ''c''\<rparr>] \<and>
   entries (fork_pid (run_events [MmapRecord 1 0 100 ''a'', MmapRecord 2 7 9 ''c'']) 2 1) 2 =
     [\<lparr>start = 0, end' = 100, filename = ''a''\<rparr>] \<and>
   process_maps (fork_pid (run_events [MmapRecord 1 0 100 ''a'', MmapRecord 2 7 9 ''c'']) 2 3) 2 =
     Some []"
proof -
  have e: "entries (run_events [MmapRecord 1 0 100 ''a'', MmapRecord 2 7 9 ''c'']) 1 =
      [\<lparr>start = 0, end' = 100, filename = ''a''\<rparr>]"
    "entries (run_events [MmapRecord 1 0 100 ''a'', MmapRecord 2 7 9 ''c'']) 2 =
      [\<lparr>start = 7, end' = 9, filename = ''c''\<rparr>]"
    "process_maps (run_events [MmapRecord 1 0 100 ''a'', MmapRecord 2 7 9 ''c'']) 3 = None"
    by (simp_all add: run_events_def entries_def ProcessMaps_init_def MapEntry_init_def add_def
      get_list_def)
  have n: "(2::int) \<noteq> 1" "(2::int) \<noteq> 3" by simp_all
  from fork_pid_overwrites_child[OF n(1), of "[MmapRecord 1 0 100 ''a'', MmapRecord 2 7 9 ''c'']"]
    fork_pid_overwrites_child[OF n(2), of "[MmapRecord 1 0 100 ''a'', MmapRecord 2 7 9 ''c'']"] e
  show ?thesis by simp
qed


section \<open>The aggregation: proofs\<close>

lemmas ex_defs = ex_node_def ex_sample_def ex_joined_def

lemmas int_defs = py_int_def unsigned_val_def digit_val_def startswith_def endswith_def

subsection \<open>The per-function, per-file and per-report steps\<close>

lemma duplicate_loop_eq:
  assumes "\<forall>x\<in>set l. callchain x \<noteq> []" "callchain s \<noteq> []"
  shows "duplicate_loop l s = Inr (is_duplicate l s)"
  using assms by (induction l) (auto simp: is_duplicate_def anchor_vaddr_def)

lemma FunctionResult_add_ok:
  assumes sr: "unwinding_result s ''stop_reason'' = Some sr"
    and ne: "callchain s \<noteq> []" and ok: "\<forall>x\<in>set (fn_list fr sr). callchain x \<noteq> []"
  shows "\<exists>fr'. FunctionResult_add_sample_result fr s = Inr fr' \<and>
           (\<forall>sr'. fn_list fr' sr' = (if sr' = sr then recorded (fn_list fr sr) s else fn_list fr sr')) \<and>
           (fn_list fr sr \<noteq> [] \<and> recorded (fn_list fr sr) s = fn_list fr sr \<longrightarrow> fr' = fr)"
proof -
  define l where "l = fn_list fr sr"
  define r1 where "r1 = (if l = [] then (sample_results fr)(sr \<mapsto> []) else sample_results fr)"
  have dl: "duplicate_loop l s = Inr (is_duplicate l s)"
    using duplicate_loop_eq[OF _ ne] ok by (simp add: l_def)
  have eq: "FunctionResult_add_sample_result fr s =
      (if is_duplicate l s then Inr (fr\<lparr>sample_results := r1\<rparr>)
       else if length l < 10 then Inr (fr\<lparr>sample_results := r1(sr \<mapsto> l @ [s])\<rparr>)
       else Inr (fr\<lparr>sample_results := r1\<rparr>))"
    using dl
    by (simp add: FunctionResult_add_sample_result_def sr l_def r1_def fn_list_def Let_def)
  have r1_sr: "(case r1 sr of None \<Rightarrow> [] | Some x \<Rightarrow> x) = l"
    by (simp add: r1_def l_def fn_list_def)
  have r1_other: "\<And>sr'. sr' \<noteq> sr \<Longrightarrow> r1 sr' = sample_results fr sr'"
    by (simp add: r1_def)
  have r1_same: "l \<noteq> [] \<Longrightarrow> r1 = sample_results fr" by (simp add: r1_def)
  have nodup_empty: "l = [] \<Longrightarrow> \<not> is_duplicate l s" by (simp add: is_duplicate_def)
  show ?thesis
  proof (cases "is_duplicate l s \<or> \<not> length l < 10")
    case True
    then have res: "FunctionResult_add_sample_result fr s = Inr (fr\<lparr>sample_results := r1\<rparr>)"
      and rec: "recorded l s = l"
      using eq by (auto simp: recorded_def)
    have "\<forall>sr'. fn_list (fr\<lparr>sample_results := r1\<rparr>) sr' = (if sr' = sr then recorded l s else fn_list fr sr')"
      using r1_sr r1_other rec by (simp add: fn_list_def)
    moreover have "l \<noteq> [] \<longrightarrow> fr\<lparr>sample_results := r1\<rparr> = fr"
      using r1_same by simp
    ultimately show ?thesis using res unfolding l_def by blast
  next
    case False
    then have res: "FunctionResult_add_sample_result fr s =
        Inr (fr\<lparr>sample_results := r1(sr \<mapsto> l @ [s])\<rparr>)"
      and rec: "recorded l s = l @ [s]"
      using eq by (auto simp: recorded_def)
    have "\<forall>sr'. fn_list (fr\<lparr>sample_results := r1(sr \<mapsto> l @ [s])\<rparr>) sr' =
        (if sr' = sr then recorded l s else fn_list fr sr')"
      using r1_other rec by (simp add: fn_list_def)
    moreover have "recorded l s \<noteq> l" using rec by simp
    ultimately show ?thesis using res unfolding l_def by blast
  qed
qed

lemma FileResult_add_ok:
  assumes sr: "unwinding_result s ''stop_reason'' = Some sr"
    and ne: "callchain s \<noteq> []"
    and fn: "fn = function_name (last (callchain s))"
    and ok: "\<forall>x\<in>set (file_list file fn sr). callchain x \<noteq> []"
  shows "\<exists>file'. FileResult_add_sample_result file s = Inr file' \<and>
           (\<forall>fn' sr'. file_list file' fn' sr' =
              (if fn' = fn \<and> sr' = sr then recorded (file_list file fn sr) s
               else file_list file fn' sr')) \<and>
           (file_list file fn sr \<noteq> [] \<and> recorded (file_list file fn sr) s = file_list file fn sr
              \<longrightarrow> file' = file)"
proof -
  define fr where "fr = (case function_results file fn of
                           None \<Rightarrow> \<lparr>sample_results = Map.empty\<rparr> | Some fr \<Rightarrow> fr)"
  have fl: "\<And>sr'. fn_list fr sr' = file_list file fn sr'"
    by (simp add: fr_def file_list_def fn_list_def split: option.splits)
  have ok': "\<forall>x\<in>set (fn_list fr sr). callchain x \<noteq> []" using ok fl by simp
  from FunctionResult_add_ok[OF sr ne ok'] obtain fr' where
    res: "FunctionResult_add_sample_result fr s = Inr fr'"
    and lists: "\<forall>sr'. fn_list fr' sr' = (if sr' = sr then recorded (fn_list fr sr) s else fn_list fr sr')"
    and same: "fn_list fr sr \<noteq> [] \<and> recorded (fn_list fr sr) s = fn_list fr sr \<longrightarrow> fr' = fr"
    by blast
  let ?file' = "file\<lparr>function_results := (function_results file)(fn \<mapsto> fr')\<rparr>"
  have eq: "FileResult_add_sample_result file s = Inr ?file'"
    using res ne by (simp add: FileResult_add_sample_result_def fn[symmetric] fr_def[symmetric] Let_def)
  have "\<forall>fn' sr'. file_list ?file' fn' sr' =
              (if fn' = fn \<and> sr' = sr then recorded (file_list file fn sr) s
               else file_list file fn' sr')"
    using lists fl by (simp add: file_list_def)
  moreover have "file_list file fn sr \<noteq> [] \<and> recorded (file_list file fn sr) s = file_list file fn sr
              \<longrightarrow> ?file' = file"
  proof
    assume a: "file_list file fn sr \<noteq> [] \<and> recorded (file_list file fn sr) s = file_list file fn sr"
    then have "fr' = fr" using same fl by simp
    moreover have "function_results file fn = Some fr"
      using a by (auto simp: fr_def file_list_def split: option.splits)
    ultimately have "(function_results file)(fn \<mapsto> fr') = function_results file" by auto
    then show "?file' = file" by simp
  qed
  ultimately show ?thesis using eq by blast
qed

lemma should_omit_flag:
  "omit_callchains_fixed_by_joiner a = omit_callchains_fixed_by_joiner b \<Longrightarrow>
     should_omit a s j = should_omit b s j"
  by (simp add: should_omit_def)

lemma should_omit_nonempty: "should_omit r s j = Inr b \<Longrightarrow> callchain s \<noteq> []"
  by (auto simp: should_omit_def split: sum.splits if_splits)

lemma should_omit_total: "callchain s \<noteq> [] \<Longrightarrow> \<exists>b. should_omit r s j = Inr b"
  by (auto simp: should_omit_def)

lemma add_sample_result_omitted:
  assumes "unwinding_result s ''used_time'' = Some u" "py_int 10 u = Inr t"
    and "should_omit r s j = Inr True"
  shows "add_sample_result r s j = Inr (r\<lparr>unwinding_times := add_time (unwinding_times r) t\<rparr>)"
proof -
  have "should_omit (r\<lparr>unwinding_times := add_time (unwinding_times r) t\<rparr>) s j = Inr True"
    using assms(3) should_omit_flag[of "r\<lparr>unwinding_times := add_time (unwinding_times r) t\<rparr>" r s j]
    by simp
  then show ?thesis using assms(1,2) by (simp add: add_sample_result_def)
qed

lemma add_sample_result_retained:
  assumes ut: "unwinding_result s ''used_time'' = Some u" "py_int 10 u = Inr t"
    and sr: "unwinding_result s ''stop_reason'' = Some sr"
    and om: "should_omit r s j = Inr False"
    and ok: "\<forall>x\<in>set (stored r (anchor_file s) (anchor_function s) sr). callchain x \<noteq> []"
  shows "\<exists>r'. add_sample_result r s j = Inr r' \<and>
           unwinding_times r' = add_time (unwinding_times r) t \<and>
           omit_callchains_fixed_by_joiner r' = omit_callchains_fixed_by_joiner r \<and>
           report_process_maps r' = report_process_maps r \<and>
           (\<forall>f' fn' sr'. stored r' f' fn' sr' =
              (if f' = anchor_file s \<and> fn' = anchor_function s \<and> sr' = sr
               then recorded (stored r (anchor_file s) (anchor_function s) sr) s
               else stored r f' fn' sr')) \<and>
           (stored r (anchor_file s) (anchor_function s) sr \<noteq> [] \<and>
            recorded (stored r (anchor_file s) (anchor_function s) sr) s =
              stored r (anchor_file s) (anchor_function s) sr
              \<longrightarrow> file_results r' = file_results r)"
proof -
  define r1 where "r1 = r\<lparr>unwinding_times := add_time (unwinding_times r) t\<rparr>"
  define f where "f = anchor_file s"
  define fn where "fn = anchor_function s"
  define fres where "fres = (case file_results r f of
                               None \<Rightarrow> \<lparr>function_results = Map.empty\<rparr> | Some fr \<Rightarrow> fr)"
  have ne: "callchain s \<noteq> []" using om by (rule should_omit_nonempty)
  have om1: "should_omit r1 s j = Inr False"
    using om should_omit_flag[of r1 r s j] by (simp add: r1_def)
  have fl: "\<And>fn' sr'. file_list fres fn' sr' = stored r f fn' sr'"
    by (simp add: fres_def stored_def file_list_def split: option.splits)
  have ok': "\<forall>x\<in>set (file_list fres fn sr). callchain x \<noteq> []"
    using ok fl by (simp add: f_def fn_def)
  from FileResult_add_ok[OF sr ne _ ok'] obtain file' where
    res: "FileResult_add_sample_result fres s = Inr file'"
    and lists: "\<forall>fn' sr'. file_list file' fn' sr' =
              (if fn' = fn \<and> sr' = sr then recorded (file_list fres fn sr) s
               else file_list fres fn' sr')"
    and same: "file_list fres fn sr \<noteq> [] \<and> recorded (file_list fres fn sr) s = file_list fres fn sr
              \<longrightarrow> file' = fres"
    by (auto simp: fn_def anchor_function_def)
  let ?r' = "r1\<lparr>file_results := (file_results r1)(f \<mapsto> file')\<rparr>"
  have om1': "should_omit (r\<lparr>unwinding_times := add_time (unwinding_times r) t\<rparr>) s j = Inr False"
    using om1 by (simp add: r1_def)
  have res': "FileResult_add_sample_result
      (case file_results r (node_filename (last (callchain s))) of
         None \<Rightarrow> \<lparr>function_results = Map.empty\<rparr> | Some fr \<Rightarrow> fr) s = Inr file'"
    using res by (simp add: fres_def f_def anchor_file_def)
  have eq: "add_sample_result r s j = Inr ?r'"
    by (simp add: add_sample_result_def ut om1' res' Let_def r1_def f_def anchor_file_def)
  have st: "\<forall>f' fn' sr'. stored ?r' f' fn' sr' =
              (if f' = f \<and> fn' = fn \<and> sr' = sr then recorded (stored r f fn sr) s
               else stored r f' fn' sr')"
    using lists fl by (simp add: stored_def r1_def)
  have sm: "stored r f fn sr \<noteq> [] \<and> recorded (stored r f fn sr) s = stored r f fn sr
              \<longrightarrow> file_results ?r' = file_results r"
  proof
    assume a: "stored r f fn sr \<noteq> [] \<and> recorded (stored r f fn sr) s = stored r f fn sr"
    then have "file' = fres" using same fl by simp
    moreover have "file_results r f = Some fres"
      using a by (auto simp: fres_def stored_def split: option.splits)
    ultimately have "(file_results r)(f \<mapsto> file') = file_results r" by auto
    then show "file_results ?r' = file_results r" by (simp add: r1_def)
  qed
  have "unwinding_times ?r' = add_time (unwinding_times r) t"
    "omit_callchains_fixed_by_joiner ?r' = omit_callchains_fixed_by_joiner r"
    "report_process_maps ?r' = report_process_maps r"
    by (simp_all add: r1_def)
  with eq st sm show ?thesis unfolding f_def fn_def by blast
qed

lemma add_sample_result_InrD:
  assumes "add_sample_result r s j = Inr r'"
  obtains u t b where "unwinding_result s ''used_time'' = Some u" "py_int 10 u = Inr t"
    "should_omit r s j = Inr b" "callchain s \<noteq> []"
    "b \<or> unwinding_result s ''stop_reason'' \<noteq> None"
proof -
  from assms obtain u where u: "unwinding_result s ''used_time'' = Some u"
    by (auto simp: add_sample_result_def split: option.splits)
  from assms u obtain t where t: "py_int 10 u = Inr t"
    by (auto simp: add_sample_result_def split: sum.splits)
  define r1 where "r1 = r\<lparr>unwinding_times := add_time (unwinding_times r) t\<rparr>"
  from assms u t obtain b where b1: "should_omit r1 s j = Inr b"
    by (auto simp: add_sample_result_def r1_def Let_def split: sum.splits)
  then have b: "should_omit r s j = Inr b"
    using should_omit_flag[of r1 r s j] by (simp add: r1_def)
  have ne: "callchain s \<noteq> []" using b by (rule should_omit_nonempty)
  have "b \<or> unwinding_result s ''stop_reason'' \<noteq> None"
  proof (cases b)
    case True then show ?thesis by simp
  next
    case False
    with assms u t b1 ne show ?thesis
      by (auto simp: add_sample_result_def r1_def Let_def FileResult_add_sample_result_def
          FunctionResult_add_sample_result_def split: sum.splits option.splits)
  qed
  with u t b ne show ?thesis using that by blast
qed

lemma recorded_ok:
  assumes "\<forall>x\<in>set l. callchain x \<noteq> []" "length l \<le> 10" "callchain s \<noteq> []"
  shows "(\<forall>x\<in>set (recorded l s). callchain x \<noteq> []) \<and> length (recorded l s) \<le> 10"
  using assms by (auto simp: recorded_def)

lemma stored_ok_init: "stored_ok (UnwindingResultErrorReport_init flag)"
  by (simp add: stored_ok_def stored_def UnwindingResultErrorReport_init_def)

lemma add_sample_result_step:
  assumes "add_sample_result r s j = Inr r'" "stored_ok r"
  shows "stored_ok r' \<and> count (unwinding_times r') = count (unwinding_times r) + 1 \<and>
         omit_callchains_fixed_by_joiner r' = omit_callchains_fixed_by_joiner r"
proof -
  from assms(1) obtain u t b where u: "unwinding_result s ''used_time'' = Some u"
    and t: "py_int 10 u = Inr t" and b: "should_omit r s j = Inr b" and ne: "callchain s \<noteq> []"
    and srb: "b \<or> unwinding_result s ''stop_reason'' \<noteq> None"
    by (rule add_sample_result_InrD)
  show ?thesis
  proof (cases b)
    case True
    with add_sample_result_omitted[OF u t] b assms(1)
    have "r' = r\<lparr>unwinding_times := add_time (unwinding_times r) t\<rparr>" by simp
    then show ?thesis using assms(2) by (simp add: stored_ok_def stored_def add_time_def)
  next
    case False
    with srb obtain sr where sr: "unwinding_result s ''stop_reason'' = Some sr" by auto
    have ok: "\<forall>x\<in>set (stored r (anchor_file s) (anchor_function s) sr). callchain x \<noteq> []"
      using assms(2) by (simp add: stored_ok_def)
    have om: "should_omit r s j = Inr False" using b False by simp
    from add_sample_result_retained[OF u t sr om ok] assms(1)
    have ut: "unwinding_times r' = add_time (unwinding_times r) t"
      and fl: "omit_callchains_fixed_by_joiner r' = omit_callchains_fixed_by_joiner r"
      and st: "\<forall>f' fn' sr'. stored r' f' fn' sr' =
              (if f' = anchor_file s \<and> fn' = anchor_function s \<and> sr' = sr
               then recorded (stored r (anchor_file s) (anchor_function s) sr) s
               else stored r f' fn' sr')"
      by auto
    have "stored_ok r'"
      unfolding stored_ok_def
    proof (intro allI)
      fix f fn sr'
      show "(\<forall>x\<in>set (stored r' f fn sr'). callchain x \<noteq> []) \<and> length (stored r' f fn sr') \<le> 10"
        using st recorded_ok[of "stored r (anchor_file s) (anchor_function s) sr" s] ne assms(2)
        by (simp add: stored_ok_def)
    qed
    then show ?thesis using ut fl by (simp add: add_time_def)
  qed
qed

lemma add_sample_results_steps:
  assumes "add_sample_results r xs = Inr r'" "stored_ok r"
  shows "stored_ok r' \<and> count (unwinding_times r') = count (unwinding_times r) + int (length xs) \<and>
         omit_callchains_fixed_by_joiner r' = omit_callchains_fixed_by_joiner r"
  using assms
proof (induction xs arbitrary: r)
  case Nil
  then show ?case by simp
next
  case (Cons x xs)
  obtain s j where x: "x = (s, j)" by (cases x)
  from Cons.prems(1) x obtain r1 where r1: "add_sample_result r s j = Inr r1"
    and rest: "add_sample_results r1 xs = Inr r'"
    by (auto split: sum.splits)
  from add_sample_result_step[OF r1 Cons.prems(2)] Cons.IH[OF rest]
  show ?case by simp
qed

lemma add_sample_result_total:
  assumes "well_formed s" "stored_ok r"
  shows "\<exists>r'. add_sample_result r s j = Inr r'"
proof -
  from assms(1) obtain u t sr where u: "unwinding_result s ''used_time'' = Some u"
    and t: "py_int 10 u = Inr t" and sr: "unwinding_result s ''stop_reason'' = Some sr"
    and ne: "callchain s \<noteq> []"
    by (cases "unwinding_result s ''used_time''"; cases "py_int 10 (the (unwinding_result s ''used_time''))")
       (auto simp: well_formed_def)
  from should_omit_total[OF ne] obtain b where b: "should_omit r s j = Inr b" by blast
  show ?thesis
  proof (cases b)
    case True
    then show ?thesis using add_sample_result_omitted[OF u t] b by simp
  next
    case False
    have ok: "\<forall>x\<in>set (stored r (anchor_file s) (anchor_function s) sr). callchain x \<noteq> []"
      using assms(2) by (simp add: stored_ok_def)
    have om: "should_omit r s j = Inr False" using b False by simp
    from add_sample_result_retained[OF u t sr om ok] show ?thesis by blast
  qed
qed

lemma add_sample_results_total:
  assumes "\<forall>x\<in>set xs. well_formed (fst x)" "stored_ok r"
  shows "\<exists>r'. add_sample_results r xs = Inr r'"
  using assms
proof (induction xs arbitrary: r)
  case Nil
  then show ?case by simp
next
  case (Cons x xs)
  obtain s j where x: "x = (s, j)" by (cases x)
  from add_sample_result_total[of s r j] Cons.prems x obtain r1 where
    r1: "add_sample_result r s j = Inr r1" by auto
  from add_sample_result_step[OF r1 Cons.prems(2)] have "stored_ok r1" by simp
  from Cons.IH[OF _ this] Cons.prems(1) obtain r' where "add_sample_results r1 xs = Inr r'"
    by auto
  then show ?case using r1 x by simp
qed

lemma in_str_sublist: "in_str name s \<longleftrightarrow> sublist name s"
  by (induction s) (simp_all add: sublist_Cons_right)

lemma in_memory_loop_hit:
  assumes "callchain s \<noteq> []" "\<exists>name\<in>set names. in_str name (node_filename (last (callchain s)))"
  shows "in_memory_loop names s = Inr True"
  using assms by (induction names) auto

lemma is_duplicate_iff: "is_duplicate l s \<longleftrightarrow> anchor_vaddr s \<in> set (map anchor_vaddr l)"
  by (auto simp: is_duplicate_def list_ex_iff image_iff) metis

lemma add_sample_results_distinct:
  assumes "stored_ok r" "omit_callchains_fixed_by_joiner r = flag"
    and "\<forall>x\<in>set xs. retained_at flag f fn sr x"
    and "distinct (map anchor_vaddr (stored r f fn sr) @ map (anchor_vaddr \<circ> fst) xs)"
  shows "\<exists>r'. add_sample_results r xs = Inr r' \<and>
           stored r' f fn sr = take 10 (stored r f fn sr @ map fst xs)"
  using assms
proof (induction xs arbitrary: r)
  case Nil
  then show ?case by (simp add: stored_ok_def)
next
  case (Cons x xs)
  obtain s j where x: "x = (s, j)" by (cases x)
  define L where "L = stored r f fn sr"
  have len: "length L \<le> 10" using Cons.prems(1) by (simp add: stored_ok_def L_def)
  have ret: "retained_at flag f fn sr (s, j)" using Cons.prems(3) x by simp
  then have wf: "well_formed s" and f: "anchor_file s = f" and fn: "anchor_function s = fn"
    and sr: "unwinding_result s ''stop_reason'' = Some sr"
    and om0: "should_omit (UnwindingResultErrorReport_init flag) s j = Inr False"
    by (simp_all add: retained_at_def anchor_file_def anchor_function_def)
  have om: "should_omit r s j = Inr False"
    using om0 should_omit_flag[of r "UnwindingResultErrorReport_init flag" s j] Cons.prems(2)
    by (simp add: UnwindingResultErrorReport_init_def)
  from wf obtain u t where u: "unwinding_result s ''used_time'' = Some u"
    and t: "py_int 10 u = Inr t"
    by (cases "unwinding_result s ''used_time''"; cases "py_int 10 (the (unwinding_result s ''used_time''))")
       (auto simp: well_formed_def)
  have ok: "\<forall>y\<in>set (stored r (anchor_file s) (anchor_function s) sr). callchain y \<noteq> []"
    using Cons.prems(1) by (simp add: stored_ok_def)
  from add_sample_result_retained[OF u t sr om ok] obtain r1 where
    r1: "add_sample_result r s j = Inr r1"
    and st: "stored r1 f fn sr = recorded L s"
    by (auto simp: f fn L_def)
  from add_sample_result_step[OF r1 Cons.prems(1)] Cons.prems(2)
  have ok1: "stored_ok r1" and fl1: "omit_callchains_fixed_by_joiner r1 = flag" by simp_all
  have nd: "\<not> is_duplicate L s"
    using Cons.prems(4) x by (auto simp: is_duplicate_iff L_def)
  have rec: "recorded L s = (if length L < 10 then L @ [s] else L)"
    using nd by (simp add: recorded_def)
  have sub: "set (recorded L s) \<subseteq> set (L @ [s])" and drec: "distinct (map anchor_vaddr (recorded L s))"
    using rec Cons.prems(4) x by (auto simp: L_def)
  have d1: "distinct (map anchor_vaddr (stored r1 f fn sr) @ map (anchor_vaddr \<circ> fst) xs)"
    unfolding st using Cons.prems(4) x rec
    by (cases "length L < 10") (auto simp: L_def comp_def)
  from Cons.IH[OF ok1 fl1 _ d1] Cons.prems(3) obtain r' where
    r': "add_sample_results r1 xs = Inr r'"
    and st': "stored r' f fn sr = take 10 (stored r1 f fn sr @ map fst xs)"
    by auto
  have "take 10 (recorded L s @ map fst xs) = take 10 (L @ s # map fst xs)"
  proof (cases "length L < 10")
    case True
    then have "recorded L s @ map fst xs = L @ s # map fst xs" using rec by simp
    then show ?thesis by (simp only:)
  next
    case False
    then have "length L = 10" using len by simp
    then show ?thesis using rec by simp
  qed
  with r' st' st r1 x show ?case by (simp add: L_def)
qed

lemma add_sample_result_time:
  assumes "add_sample_result r s j = Inr r'"
  shows "\<exists>u t. unwinding_result s ''used_time'' = Some u \<and> py_int 10 u = Inr t \<and>
               unwinding_times r' = add_time (unwinding_times r) t"
  using assms
  by (auto simp: add_sample_result_def Let_def split: option.splits sum.splits bool.splits)

lemma add_sample_results_count:
  assumes "add_sample_results r xs = Inr r'"
  shows "count (unwinding_times r') = count (unwinding_times r) + int (length xs)"
  using assms
proof (induction xs arbitrary: r)
  case Nil
  then show ?case by simp
next
  case (Cons x xs)
  obtain s j where x: "x = (s, j)" by (cases x)
  from Cons.prems x obtain r1 where r1: "add_sample_result r s j = Inr r1"
    and rest: "add_sample_results r1 xs = Inr r'"
    by (auto split: sum.splits)
  from add_sample_result_time[OF r1] have "count (unwinding_times r1) = count (unwinding_times r) + 1"
    by (auto simp: add_time_def)
  with Cons.IH[OF rest] show ?case by simp
qed

lemma ex_retained:
  "retained_at False ''f'' ''g'' ''1'' (ex_sample p t [ex_node ''f'' ''g'' v], ex_joined)"
  by (simp add: retained_at_def well_formed_def should_omit_def ex_defs int_defs
      UnwindingResultErrorReport_init_def)

lemma ex_anchor_vaddr: "anchor_vaddr (ex_sample p t [ex_node f fn v]) = v"
  by (simp add: anchor_vaddr_def ex_defs)

lemma ex_report_run:
  "add_sample_results (UnwindingResultErrorReport_init False)
     [(ex_sample 1 ''7'' [ex_node ''f'' ''g'' 3], ex_joined)] = Inr ex_report"
  by (simp add: add_sample_result_def should_omit_def FileResult_add_sample_result_def
      FunctionResult_add_sample_result_def add_time_def ex_defs int_defs ex_report_def
      UnwindingResultErrorReport_init_def Let_def)

subsection \<open>The claims about the aggregation\<close>

text \<open>
  Claim C5: let \<open>r\<close> be a report reached by recording samples, and \<open>s\<close> a sample that is
  retained (\<open>should_omit\<close> returns \<open>False\<close>) and whose \<open>used_time\<close> converts. If the list
  stored under the triple of \<open>s\<close> (filename and function name of its anchor frame, its
  \<open>stop_reason\<close>) holds a sample whose anchor frame has the same \<open>vaddr_in_file\<close>, then
  recording \<open>s\<close> succeeds and leaves \<open>file_results\<close>, hence every stored list, unchanged.
  Nothing is assumed about the pid, the tid or the time of \<open>s\<close>.
\<close>
theorem duplicate_sample_discarded:
  assumes "add_sample_results (UnwindingResultErrorReport_init flag) xs = Inr r"
    and "unwinding_result s ''used_time'' = Some u" "py_int 10 u = Inr t"
    and "unwinding_result s ''stop_reason'' = Some sr"
    and "should_omit r s j = Inr False"
    and "x \<in> set (stored r (node_filename (last (callchain s)))
                            (function_name (last (callchain s))) sr)"
    and "vaddr_in_file (last (callchain x)) = vaddr_in_file (last (callchain s))"
  shows "\<exists>r'. add_sample_result r s j = Inr r' \<and> file_results r' = file_results r \<and>
              (\<forall>f' fn' sr'. stored r' f' fn' sr' = stored r f' fn' sr')"
proof -
  have ok: "stored_ok r" using add_sample_results_steps[OF assms(1) stored_ok_init] by simp
  define L where "L = stored r (anchor_file s) (anchor_function s) sr"
  have xL: "x \<in> set L" using assms(6) by (simp add: L_def anchor_file_def anchor_function_def)
  then have dup: "is_duplicate L s"
    using assms(7) by (auto simp: is_duplicate_def list_ex_iff anchor_vaddr_def)
  then have rec: "recorded L s = L" by (simp add: recorded_def)
  have ne: "L \<noteq> []" using xL by auto
  have okL: "\<forall>y\<in>set L. callchain y \<noteq> []" using ok by (simp add: stored_ok_def L_def)
  from add_sample_result_retained[OF assms(2,3,4,5) okL[unfolded L_def]]
  obtain r' where r': "add_sample_result r s j = Inr r'"
    and st: "\<forall>f' fn' sr'. stored r' f' fn' sr' =
              (if f' = anchor_file s \<and> fn' = anchor_function s \<and> sr' = sr
               then recorded L s else stored r f' fn' sr')"
    and same: "L \<noteq> [] \<and> recorded L s = L \<longrightarrow> file_results r' = file_results r"
    unfolding L_def by blast
  have "\<forall>f' fn' sr'. stored r' f' fn' sr' = stored r f' fn' sr'"
    using st rec by (auto simp: L_def)
  with r' same ne rec show ?thesis by blast
qed

theorem duplicate_sample_discarded_witness:
  "add_sample_results (UnwindingResultErrorReport_init False)
     [(ex_sample 1 ''7'' [ex_node ''f'' ''g'' 3], ex_joined)] = Inr ex_report \<and>
   should_omit ex_report (ex_sample 2 ''8'' [ex_node ''q'' ''h'' 9, ex_node ''f'' ''g'' 3]) ex_joined = Inr False \<and>
   (\<exists>r'. add_sample_result ex_report (ex_sample 2 ''8'' [ex_node ''q'' ''h'' 9, ex_node ''f'' ''g'' 3]) ex_joined = Inr r' \<and>
         file_results r' = file_results ex_report \<and>
         count (unwinding_times r') = 2)"
proof -
  let ?s = "ex_sample 2 ''8'' [ex_node ''q'' ''h'' 9, ex_node ''f'' ''g'' 3]"
  have u: "unwinding_result ?s ''used_time'' = Some ''5''" by (simp add: ex_defs)
  have t: "py_int 10 ''5'' = Inr 5" by (simp add: int_defs)
  have sr: "unwinding_result ?s ''stop_reason'' = Some ''1''" by (simp add: ex_defs)
  have om: "should_omit ex_report ?s ex_joined = Inr False"
    by (simp add: should_omit_def ex_defs int_defs ex_report_def)
  have x: "ex_sample 1 ''7'' [ex_node ''f'' ''g'' 3] \<in>
      set (stored ex_report (node_filename (last (callchain ?s))) (function_name (last (callchain ?s))) ''1'')"
    by (simp add: stored_def file_list_def fn_list_def ex_report_def ex_defs)
  have v: "vaddr_in_file (last (callchain (ex_sample 1 ''7'' [ex_node ''f'' ''g'' 3]))) =
           vaddr_in_file (last (callchain ?s))"
    by (simp add: ex_defs)
  from duplicate_sample_discarded[OF ex_report_run u t sr om x v]
  obtain r' where r': "add_sample_result ex_report ?s ex_joined = Inr r'"
    and f: "file_results r' = file_results ex_report" by blast
  from add_sample_result_time[OF r'] u t have "count (unwinding_times r') = 2"
    by (simp add: add_time_def ex_report_def)
  with r' f om ex_report_run show ?thesis by blast
qed

text \<open>
  Claim C6: recording, into a new report, retained samples of one (filename, function name,
  stop reason) triple whose anchor offsets are pairwise distinct leaves under that triple
  the first 10 of them in arrival order; for 11 samples these are exactly 10 samples, all
  but the last. Whatever samples a run has recorded, no stored list has more than 10
  entries.
\<close>
theorem at_most_ten_samples_per_triple:
  assumes "\<forall>x\<in>set xs. retained_at flag f fn sr x"
    and "distinct (map (anchor_vaddr \<circ> fst) xs)"
  shows "(\<exists>r. add_sample_results (UnwindingResultErrorReport_init flag) xs = Inr r \<and>
              stored r f fn sr = take 10 (map fst xs) \<and>
              (length xs = 11 \<longrightarrow> length (stored r f fn sr) = 10 \<and>
                                   stored r f fn sr = butlast (map fst xs))) \<and>
         (\<forall>ys r' f' fn' sr'.
            add_sample_results (UnwindingResultErrorReport_init flag) ys = Inr r' \<longrightarrow>
            length (stored r' f' fn' sr') \<le> 10)"
proof
  let ?i = "UnwindingResultErrorReport_init flag"
  have e: "stored ?i f fn sr = []"
    by (simp add: stored_def UnwindingResultErrorReport_init_def)
  from add_sample_results_distinct[OF stored_ok_init _ assms(1), of flag] assms(2) e
  obtain r where r: "add_sample_results ?i xs = Inr r"
    and st: "stored r f fn sr = take 10 (map fst xs)"
    by (auto simp: UnwindingResultErrorReport_init_def)
  have "length xs = 11 \<longrightarrow> take 10 (map fst xs) = butlast (map fst xs)"
    by (simp add: butlast_conv_take)
  with r st show "\<exists>r. add_sample_results ?i xs = Inr r \<and>
              stored r f fn sr = take 10 (map fst xs) \<and>
              (length xs = 11 \<longrightarrow> length (stored r f fn sr) = 10 \<and>
                                   stored r f fn sr = butlast (map fst xs))"
    by auto
next
  show "\<forall>ys r' f' fn' sr'.
            add_sample_results (UnwindingResultErrorReport_init flag) ys = Inr r' \<longrightarrow>
            length (stored r' f' fn' sr') \<le> 10"
    using add_sample_results_steps[OF _ stored_ok_init] by (auto simp: stored_ok_def)
qed

theorem at_most_ten_samples_per_triple_witness:
  "list_all (retained_at False ''f'' ''g'' ''1'') ex_eleven \<and>
   distinct (map (anchor_vaddr \<circ> fst) ex_eleven) \<and> length ex_eleven = 11 \<and>
   (\<exists>r. add_sample_results (UnwindingResultErrorReport_init False) ex_eleven = Inr r \<and>
        stored r ''f'' ''g'' ''1'' = butlast (map fst ex_eleven))"
proof -
  have a: "\<forall>x\<in>set ex_eleven. retained_at False ''f'' ''g'' ''1'' x"
    unfolding ex_eleven_def using ex_retained by auto
  have d: "distinct (map (anchor_vaddr \<circ> fst) ex_eleven)"
    by (simp add: ex_eleven_def ex_anchor_vaddr)
  have l: "length ex_eleven = 11" by (simp add: ex_eleven_def)
  from at_most_ten_samples_per_triple[OF a d] a d l
  show ?thesis by (auto simp: list_all_iff)
qed

text \<open>
  Claim C7: \<open>should_omit\<close> returns \<open>True\<close> for every sample whose anchor frame's filename
  contains \<open>/dev/ashmem/dalvik-jit-code-cache\<close> or \<open>//anon\<close> as a substring, for every
  report (hence either value of the flag), every joined record and every other content of
  the call chain: the check on the filename decides before the two completeness checks
  are reached.
\<close>
theorem should_omit_in_memory_code:
  assumes "callchain s \<noteq> []"
    and "sublist ''/dev/ashmem/dalvik-jit-code-cache'' (node_filename (last (callchain s))) \<or>
         sublist ''//anon'' (node_filename (last (callchain s)))"
  shows "should_omit r s j = Inr True"
proof -
  have "in_memory_loop [''/dev/ashmem/dalvik-jit-code-cache'', ''//anon''] s = Inr True"
    by (rule in_memory_loop_hit[OF assms(1)]) (use assms(2) in \<open>auto simp: in_str_sublist\<close>)
  then show ?thesis by (simp add: should_omit_def)
qed

theorem should_omit_in_memory_code_witness:
  "callchain (ex_sample 1 ''7'' [ex_node ''a//anon:x'' ''g'' 3]) \<noteq> [] \<and>
   sublist ''//anon'' (node_filename (last (callchain (ex_sample 1 ''7'' [ex_node ''a//anon:x'' ''g'' 3])))) \<and>
   \<not> is_callchain_complete (callchain (ex_sample 1 ''7'' [ex_node ''a//anon:x'' ''g'' 3])) \<and>
   should_omit (UnwindingResultErrorReport_init False) (ex_sample 1 ''7'' [ex_node ''a//anon:x'' ''g'' 3])
     ex_joined = Inr True"
proof -
  have ne: "callchain (ex_sample 1 ''7'' [ex_node ''a//anon:x'' ''g'' 3]) \<noteq> []"
    by (simp add: ex_defs)
  have sub: "sublist ''//anon'' (node_filename (last (callchain (ex_sample 1 ''7'' [ex_node ''a//anon:x'' ''g'' 3]))))"
    by (simp add: ex_defs sublist_code)
  have nc: "\<not> is_callchain_complete (callchain (ex_sample 1 ''7'' [ex_node ''a//anon:x'' ''g'' 3]))"
    by (simp add: ex_defs int_defs)
  from should_omit_in_memory_code[OF ne disjI2[OF sub], of "UnwindingResultErrorReport_init False" ex_joined]
    ne sub nc
  show ?thesis by blast
qed

text \<open>
  Claim C8: when a sequence of samples has been recorded, \<open>unwinding_times.count\<close> has grown
  by the number of samples; a run over well-formed samples does not raise, and from a new
  report its count is the number of samples. An omitted sample changes nothing but the
  timing statistics, and every recorded sample, omitted or not, updates the timing
  statistics with its \<open>used_time\<close>.
\<close>
theorem unwinding_count_counts_every_sample:
  "(add_sample_results r xs = Inr r' \<longrightarrow>
      count (unwinding_times r') = count (unwinding_times r) + int (length xs)) \<and>
   ((\<forall>x\<in>set xs. well_formed (fst x)) \<longrightarrow>
      (\<exists>r1. add_sample_results (UnwindingResultErrorReport_init flag) xs = Inr r1 \<and>
            count (unwinding_times r1) = int (length xs))) \<and>
   (unwinding_result s ''used_time'' = Some u \<and> py_int 10 u = Inr t \<and>
    should_omit r s j = Inr True \<longrightarrow>
      add_sample_result r s j = Inr (r\<lparr>unwinding_times := add_time (unwinding_times r) t\<rparr>)) \<and>
   (add_sample_result r s j = Inr r2 \<longrightarrow>
      (\<exists>u t. unwinding_result s ''used_time'' = Some u \<and> py_int 10 u = Inr t \<and>
             unwinding_times r2 = add_time (unwinding_times r) t))"
proof (intro conjI impI)
  assume "add_sample_results r xs = Inr r'"
  then show "count (unwinding_times r') = count (unwinding_times r) + int (length xs)"
    by (rule add_sample_results_count)
next
  assume wf: "\<forall>x\<in>set xs. well_formed (fst x)"
  from add_sample_results_total[OF wf stored_ok_init] obtain r1 where
    r1: "add_sample_results (UnwindingResultErrorReport_init flag) xs = Inr r1" by blast
  from add_sample_results_count[OF r1] have "count (unwinding_times r1) = int (length xs)"
    by (simp add: UnwindingResultErrorReport_init_def)
  with r1 show "\<exists>r1. add_sample_results (UnwindingResultErrorReport_init flag) xs = Inr r1 \<and>
            count (unwinding_times r1) = int (length xs)" by blast
next
  assume "unwinding_result s ''used_time'' = Some u \<and> py_int 10 u = Inr t \<and>
    should_omit r s j = Inr True"
  then show "add_sample_result r s j = Inr (r\<lparr>unwinding_times := add_time (unwinding_times r) t\<rparr>)"
    using add_sample_result_omitted by blast
next
  assume "add_sample_result r s j = Inr r2"
  then show "\<exists>u t. unwinding_result s ''used_time'' = Some u \<and> py_int 10 u = Inr t \<and>
             unwinding_times r2 = add_time (unwinding_times r) t"
    by (rule add_sample_result_time)
qed

theorem unwinding_count_counts_every_sample_witness:
  "list_all (well_formed \<circ> fst)
     [(ex_sample 1 ''7'' [ex_node ''a//anon:x'' ''g'' 3], ex_joined),
      (ex_sample 1 ''8'' [ex_node ''f'' ''g'' 3], ex_joined)] \<and>
   should_omit (UnwindingResultErrorReport_init False)
     (ex_sample 1 ''7'' [ex_node ''a//anon:x'' ''g'' 3]) ex_joined = Inr True \<and>
   (\<exists>r1. add_sample_results (UnwindingResultErrorReport_init False)
      [(ex_sample 1 ''7'' [ex_node ''a//anon:x'' ''g'' 3], ex_joined),
       (ex_sample 1 ''8'' [ex_node ''f'' ''g'' 3], ex_joined)] = Inr r1 \<and>
      count (unwinding_times r1) = 2)"
proof -
  let ?xs = "[(ex_sample 1 ''7'' [ex_node ''a//anon:x'' ''g'' 3], ex_joined),
      (ex_sample 1 ''8'' [ex_node ''f'' ''g'' 3], ex_joined)]"
  have wf: "\<forall>x\<in>set ?xs. well_formed (fst x)"
    by (simp add: well_formed_def ex_defs int_defs)
  have om: "should_omit (UnwindingResultErrorReport_init False)
     (ex_sample 1 ''7'' [ex_node ''a//anon:x'' ''g'' 3]) ex_joined = Inr True"
    by (simp add: should_omit_def ex_defs)
  from unwinding_count_counts_every_sample[of _ ?xs _ False] wf
  have "\<exists>r1. add_sample_results (UnwindingResultErrorReport_init False) ?xs = Inr r1 \<and>
      count (unwinding_times r1) = int (length ?xs)" by blast
  then show ?thesis using wf om by (simp add: list_all_iff)
qed


section \<open>The parser: proofs\<close>

lemmas str_defs = py_strip_def py_split_def is_space_def is_word_def rfind_def slice_to_def
  lit_def spaces1_def word1_def at_end_def match_ip_at_def match_tail_at_def frame_at_def
  re_match_frame_def

subsection \<open>The loop over the lines\<close>

lemma py_int_error: "py_int b s = Inl e \<Longrightarrow> e = ValueError"
  by (auto simp: py_int_def split: list.splits if_splits option.splits)

lemma py_int_cases: "py_int b s = Inl ValueError \<or> py_int b s = Inr (int_of b s)"
  by (cases "py_int b s") (auto simp: int_of_def dest: py_int_error)

lemma py_int_isl: "isl (py_int b s) \<longleftrightarrow> py_int b s = Inl ValueError"
  using py_int_cases[of b s] by auto

lemma parse_line_classify:
  "parse_line ct i raw v =
     (if wrong_tag ct (classify (in_callchain v) raw) then Inl (Fatal i)
      else if raises_value_error (classify (in_callchain v) raw) then Inl ValueError
      else Inr (collect1 (classify (in_callchain v) raw) v))"
proof -
  define line where "line = py_strip raw"
  define items where "items = py_split line"
  note defs = parse_line_def classify_def Let_def line_def[symmetric] items_def[symmetric]
  consider (empty) "items = []"
    | (pid) "items \<noteq> []" "items ! 0 = ''pid'' \<and> length items = 2"
    | (tid) "items \<noteq> []" "\<not> (items ! 0 = ''pid'' \<and> length items = 2)"
        "items ! 0 = ''tid'' \<and> length items = 2"
    | (tag) "items \<noteq> []" "\<not> (items ! 0 = ''pid'' \<and> length items = 2)"
        "\<not> (items ! 0 = ''tid'' \<and> length items = 2)"
        "items ! 0 = ''chain_type'' \<and> length items = 2"
    | (ip) "items \<noteq> []" "\<not> (items ! 0 = ''pid'' \<and> length items = 2)"
        "\<not> (items ! 0 = ''tid'' \<and> length items = 2)"
        "\<not> (items ! 0 = ''chain_type'' \<and> length items = 2)" "items ! 0 = ''ip''"
    | (marker) "items \<noteq> []" "\<not> (items ! 0 = ''pid'' \<and> length items = 2)"
        "\<not> (items ! 0 = ''tid'' \<and> length items = 2)"
        "\<not> (items ! 0 = ''chain_type'' \<and> length items = 2)" "items ! 0 \<noteq> ''ip''"
        "items ! 0 = ''callchain:''"
    | (rest) "items \<noteq> []" "\<not> (items ! 0 = ''pid'' \<and> length items = 2)"
        "\<not> (items ! 0 = ''tid'' \<and> length items = 2)"
        "\<not> (items ! 0 = ''chain_type'' \<and> length items = 2)" "items ! 0 \<noteq> ''ip''"
        "items ! 0 \<noteq> ''callchain:''"
    by blast
  then show ?thesis
  proof cases
    case empty
    then show ?thesis by (auto simp: defs)
  next
    case pid
    then show ?thesis using py_int_cases[of 10 "items ! 1"] by (auto simp: defs)
  next
    case tid
    then show ?thesis using py_int_cases[of 10 "items ! 1"] by (auto simp: defs)
  next
    case tag
    then show ?thesis by (auto simp: defs)
  next
    case ip
    show ?thesis
    proof (cases "re_search_ip line")
      case None
      with ip show ?thesis by (auto simp: defs)
    next
      case (Some g)
      obtain g1 g2 where g: "g = (g1, g2)" by (cases g)
      from ip Some g show ?thesis
        using py_int_cases[of 16 g1] py_int_cases[of 16 g2] by (auto simp: defs)
    qed
  next
    case marker
    then show ?thesis by (auto simp: defs)
  next
    case rest
    show ?thesis
    proof (cases "in_callchain v")
      case False
      with rest show ?thesis by (auto simp: defs)
    next
      case True
      define bp where "bp = (if re_search_tail line
             then rfind CHR ''('' (slice_to line (rfind CHR ''('' line))
             else rfind CHR ''('' line)"
      show ?thesis
      proof (cases "bp > 0")
        case False
        with rest True show ?thesis by (auto simp: defs frame_parts_def bp_def[symmetric])
      next
        case pos: True
        show ?thesis
        proof (cases "re_match_frame (drop (nat (bp + 1)) line)")
          case None
          with rest True pos show ?thesis by (auto simp: defs frame_parts_def bp_def[symmetric])
        next
          case (Some g)
          obtain g1 g2 where g: "g = (g1, g2)" by (cases g)
          from rest True pos Some g show ?thesis
            using py_int_cases[of 16 g2]
            by (auto simp: defs frame_parts_def bp_def[symmetric])
        qed
      qed
    qed
  qed
qed

lemma collect_Nil: "collect [] v = v"
  by (simp add: collect_def)

lemma collect_Cons: "collect (it # its) v = collect its (collect1 it v)"
  by (simp add: collect_def)

lemma collect1_flag: "in_callchain (collect1 it v) = (in_callchain v \<or> is_marker it)"
  by (cases it) simp_all

lemma collect_fields:
  "ips (collect its v) = ips v @ map fst (pairs its) \<and>
   sps (collect its v) = sps v @ map snd (pairs its) \<and>
   function_names (collect its v) = function_names v @ map fst (triples its) \<and>
   filenames (collect its v) = filenames v @ map (fst \<circ> snd) (triples its) \<and>
   vaddr_in_files (collect its v) = vaddr_in_files v @ map (snd \<circ> snd) (triples its) \<and>
   record_pid (callchain_record (collect its v)) =
     (if pids its = [] then record_pid (callchain_record v) else Some (last (pids its))) \<and>
   record_tid (callchain_record (collect its v)) =
     (if tids its = [] then record_tid (callchain_record v) else Some (last (tids its))) \<and>
   record_callchain (callchain_record (collect its v)) = record_callchain (callchain_record v)"
proof (induction its arbitrary: v)
  case Nil
  then show ?case by (simp add: collect_Nil)
next
  case (Cons it its)
  show ?case
    unfolding collect_Cons using Cons.IH[of "collect1 it v"]
    by (cases it) simp_all
qed

lemma parse_loop_prefix:
  assumes "\<forall>l\<in>set pre. \<not> startswith l ''record''"
    and "\<forall>it\<in>set (scan (in_callchain v) pre). \<not> stops ct it"
  shows "parse_loop ct (pre @ rest) i v =
           parse_loop ct rest (i + length pre) (collect (scan (in_callchain v) pre) v) \<and>
         in_callchain (collect (scan (in_callchain v) pre) v) =
           (in_callchain v \<or> list_ex is_marker (scan (in_callchain v) pre))"
  using assms
proof (induction pre arbitrary: i v)
  case Nil
  then show ?case by (simp add: collect_Nil)
next
  case (Cons l pre)
  define it where "it = classify (in_callchain v) l"
  have nr: "\<not> startswith l ''record''" and nrs: "\<forall>l\<in>set pre. \<not> startswith l ''record''"
    using Cons.prems(1) by simp_all
  have sc: "scan (in_callchain v) (l # pre) = it # scan (in_callchain v \<or> is_marker it) pre"
    by (simp add: it_def)
  have ns: "\<not> stops ct it" using Cons.prems(2) sc by simp
  have line: "parse_line ct i l v = Inr (collect1 it v)"
    using ns by (simp add: parse_line_classify it_def[symmetric] stops_def)
  have flag: "in_callchain (collect1 it v) = (in_callchain v \<or> is_marker it)"
    by (rule collect1_flag)
  have rest_ok: "\<forall>x\<in>set (scan (in_callchain (collect1 it v)) pre). \<not> stops ct x"
    using Cons.prems(2) sc flag by simp
  from Cons.IH[OF nrs rest_ok, of "i + 1"]
  have ih1: "parse_loop ct (pre @ rest) (i + 1) (collect1 it v) =
       parse_loop ct rest (i + 1 + length pre) (collect (scan (in_callchain (collect1 it v)) pre) (collect1 it v))"
    and ih2: "in_callchain (collect (scan (in_callchain (collect1 it v)) pre) (collect1 it v)) =
       (in_callchain (collect1 it v) \<or> list_ex is_marker (scan (in_callchain (collect1 it v)) pre))"
    by simp_all
  have c: "collect (scan (in_callchain v) (l # pre)) v =
           collect (scan (in_callchain (collect1 it v)) pre) (collect1 it v)"
    unfolding sc collect_Cons flag ..
  have "parse_loop ct ((l # pre) @ rest) i v = parse_loop ct (pre @ rest) (i + 1) (collect1 it v)"
    using nr line by simp
  also have "\<dots> = parse_loop ct rest (i + length (l # pre)) (collect (scan (in_callchain v) (l # pre)) v)"
    unfolding ih1 c by simp
  finally have 1: "parse_loop ct ((l # pre) @ rest) i v =
      parse_loop ct rest (i + length (l # pre)) (collect (scan (in_callchain v) (l # pre)) v)" .
  have 2: "in_callchain (collect (scan (in_callchain v) (l # pre)) v) =
           (in_callchain v \<or> list_ex is_marker (scan (in_callchain v) (l # pre)))"
    unfolding c ih2 unfolding sc flag by auto
  from 1 2 show ?case by blast
qed

lemma parse_loop_block:
  "parse_loop ct ls i v = parse_loop ct (takeWhile (\<lambda>l. \<not> startswith l ''record'') ls) i v"
proof (induction ls arbitrary: i v)
  case Nil
  then show ?case by simp
next
  case (Cons l ls)
  show ?case
  proof (cases "startswith l ''record''")
    case True
    then show ?thesis by simp
  next
    case False
    then show ?thesis using Cons.IH by (simp split: sum.splits)
  qed
qed

lemma scan_append:
  "scan c (pre @ rest) = scan c pre @ scan (c \<or> list_ex is_marker (scan c pre)) rest"
  by (induction pre arbitrary: c) auto

lemma length_scan: "length (scan c ls) = length ls"
  by (induction ls arbitrary: c) auto

lemma scan_nth:
  "j < length ls \<Longrightarrow>
     scan c ls ! j = classify (c \<or> list_ex is_marker (take j (scan c ls))) (ls ! j)"
proof (induction ls arbitrary: c j)
  case Nil
  then show ?case by simp
next
  case (Cons l ls)
  show ?case
  proof (cases j)
    case 0
    then show ?thesis by simp
  next
    case (Suc j')
    with Cons.prems have "j' < length ls" by simp
    from Cons.IH[OF this, of "c \<or> is_marker (classify c l)"] Suc show ?thesis by auto
  qed
qed

lemma wrong_tag_no_value_error: "wrong_tag ct it \<Longrightarrow> \<not> raises_value_error it"
  by (cases it) simp_all

lemma block_no_record: "\<forall>l\<in>set (block lines i). \<not> startswith l ''record''"
  by (auto simp: block_def dest: set_takeWhileD)

lemma block_props:
  assumes "i < length lines"
  shows "block_end lines i \<le> length lines"
    and "block_end lines i = length lines \<or> startswith (lines ! block_end lines i) ''record''"
    and "\<forall>j<length (block lines i). block lines i ! j = lines ! (i + 1 + j)"
    and "\<forall>m. i < m \<and> m < block_end lines i \<longrightarrow> \<not> startswith (lines ! m) ''record''"
proof -
  let ?P = "\<lambda>l. \<not> startswith l ''record''"
  let ?d = "drop (i + 1) lines"
  have len: "length (block lines i) \<le> length ?d"
    unfolding block_def by (rule length_takeWhile_le)
  then show le: "block_end lines i \<le> length lines"
    using assms by (simp add: block_end_def)
  show "block_end lines i = length lines \<or> startswith (lines ! block_end lines i) ''record''"
  proof (cases "length (block lines i) < length ?d")
    case True
    then have "\<not> ?P (?d ! length (takeWhile ?P ?d))"
      unfolding block_def by (rule nth_length_takeWhile)
    moreover have "?d ! length (takeWhile ?P ?d) = lines ! block_end lines i"
      using assms by (simp add: block_end_def block_def)
    ultimately show ?thesis by simp
  next
    case False
    with len have "length (block lines i) = length ?d" by simp
    then have "length (block lines i) = length lines - (i + 1)" by simp
    then have "block_end lines i = i + 1 + (length lines - (i + 1))"
      unfolding block_end_def by (rule arg_cong)
    also have "\<dots> = length lines" using assms by arith
    finally show ?thesis by (rule disjI1)
  qed
  show nth: "\<forall>j<length (block lines i). block lines i ! j = lines ! (i + 1 + j)"
  proof (intro allI impI)
    fix j assume j: "j < length (block lines i)"
    then have "block lines i ! j = ?d ! j" unfolding block_def by (rule takeWhile_nth)
    also have "\<dots> = lines ! (i + 1 + j)" using assms by simp
    finally show "block lines i ! j = lines ! (i + 1 + j)" .
  qed
  show "\<forall>m. i < m \<and> m < block_end lines i \<longrightarrow> \<not> startswith (lines ! m) ''record''"
  proof (intro allI impI)
    fix m assume m: "i < m \<and> m < block_end lines i"
    then have j: "m - (i + 1) < length (block lines i)" unfolding block_end_def by arith
    from m have "i + 1 + (m - (i + 1)) = m" by arith
    with nth j have "block lines i ! (m - (i + 1)) = lines ! m" by metis
    moreover have "block lines i ! (m - (i + 1)) \<in> set (block lines i)" using j by simp
    ultimately show "\<not> startswith (lines ! m) ''record''" using block_no_record by metis
  qed
qed

lemma loop_on_block:
  "parse_loop ct (drop (i + 1) lines) (i + 1) parse_vars_init =
     parse_loop ct (block lines i) (i + 1) parse_vars_init"
  unfolding block_def by (rule parse_loop_block)

lemma init_flag: "in_callchain parse_vars_init = False"
  by (simp add: parse_vars_init_def)

lemma loop_no_stop:
  assumes "\<forall>it\<in>set (items_of lines i). \<not> stops ct it"
  shows "parse_loop ct (drop (i + 1) lines) (i + 1) parse_vars_init =
           Inr (block_end lines i, collect (items_of lines i) parse_vars_init)"
proof -
  have ns: "\<forall>it\<in>set (scan (in_callchain parse_vars_init) (block lines i)). \<not> stops ct it"
    using assms by (simp add: items_of_def init_flag)
  from parse_loop_prefix[OF block_no_record ns, of "[]" "i + 1"]
  show ?thesis
    unfolding loop_on_block by (simp add: items_of_def init_flag block_end_def)
qed

lemma loop_first_stop:
  assumes j: "j < length (items_of lines i)"
    and st: "stops ct (items_of lines i ! j)"
    and first: "\<forall>m<j. \<not> stops ct (items_of lines i ! m)"
  shows "parse_loop ct (drop (i + 1) lines) (i + 1) parse_vars_init =
           Inl (if raises_value_error (items_of lines i ! j) then ValueError else Fatal (i + 1 + j))"
proof -
  define blk where "blk = block lines i"
  define pre where "pre = take j blk"
  define l where "l = blk ! j"
  define post where "post = drop (Suc j) blk"
  have jb: "j < length blk" using j by (simp add: items_of_def length_scan blk_def)
  have split: "blk = pre @ l # post"
    unfolding pre_def l_def post_def using jb by (rule id_take_nth_drop)
  have lp: "length pre = j" using jb by (simp add: pre_def)
  define c where "c = list_ex is_marker (scan False pre)"
  have its: "items_of lines i = scan False pre @ classify c l # scan (c \<or> is_marker (classify c l)) post"
    unfolding items_of_def blk_def[symmetric] split scan_append c_def by simp
  have lsp: "length (scan False pre) = j" by (simp add: length_scan lp)
  have itj: "items_of lines i ! j = classify c l"
    unfolding its using lsp by (simp add: nth_append)
  have pre_ok: "\<forall>it\<in>set (scan (in_callchain parse_vars_init) pre). \<not> stops ct it"
  proof
    fix it assume "it \<in> set (scan (in_callchain parse_vars_init) pre)"
    then obtain m where m: "m < j" "scan False pre ! m = it"
      using lsp by (auto simp: in_set_conv_nth init_flag)
    then have "items_of lines i ! m = it" unfolding its using lsp by (simp add: nth_append)
    with first m(1) show "\<not> stops ct it" by auto
  qed
  have nr_all: "\<forall>x\<in>set blk. \<not> startswith x ''record''"
    unfolding blk_def by (rule block_no_record)
  then have nr_pre: "\<forall>x\<in>set pre. \<not> startswith x ''record''" and nr_l: "\<not> startswith l ''record''"
    unfolding split by simp_all
  define v where "v = collect (scan (in_callchain parse_vars_init) pre) parse_vars_init"
  from parse_loop_prefix[OF nr_pre pre_ok, of "l # post" "i + 1"]
  have run: "parse_loop ct (pre @ l # post) (i + 1) parse_vars_init =
               parse_loop ct (l # post) (i + 1 + j) v"
    and fl: "in_callchain v = c"
    by (simp_all add: v_def lp init_flag c_def)
  have stl: "stops ct (classify (in_callchain v) l)" using st itj fl by simp
  have "parse_line ct (i + 1 + j) l v =
          Inl (if raises_value_error (classify (in_callchain v) l) then ValueError
               else Fatal (i + 1 + j))"
    using stl wrong_tag_no_value_error[of ct "classify (in_callchain v) l"]
    by (auto simp: parse_line_classify stops_def)
  then have "parse_loop ct (l # post) (i + 1 + j) v =
          Inl (if raises_value_error (classify c l) then ValueError else Fatal (i + 1 + j))"
    using nr_l fl by simp
  then show ?thesis
    unfolding loop_on_block blk_def[symmetric] split[symmetric, unfolded split] itj
    using run split by simp
qed

lemma first_stop_exists:
  assumes "\<exists>it\<in>set its. stops ct it"
  obtains j where "j < length its" "stops ct (its ! j)" "\<forall>m<j. \<not> stops ct (its ! m)"
proof -
  from assms have "\<exists>n. n < length its \<and> stops ct (its ! n)"
    by (auto simp: in_set_conv_nth)
  then obtain j where "j < length its \<and> stops ct (its ! j)"
    and "\<forall>m<j. \<not> (m < length its \<and> stops ct (its ! m))"
    using exists_least_iff[of "\<lambda>n. n < length its \<and> stops ct (its ! n)"] by auto
  then show ?thesis using that by auto
qed

subsection \<open>The whole function\<close>

lemma header_ok:
  assumes "i \<le> length lines" "\<not> header_missing lines i"
  shows "i < length lines" "startswith (lines ! i) ''record callchain:''"
  using assms by (auto simp: header_missing_def)

lemma result_header:
  assumes "i \<le> length lines" "header_missing lines i"
  shows "parse_callchain_record lines i ct pm = Inl (Fatal i)"
  using assms by (auto simp: parse_callchain_record_def header_missing_def)

lemma result_loop_error:
  assumes "i \<le> length lines" "\<not> header_missing lines i"
    and "parse_loop ct (drop (i + 1) lines) (i + 1) parse_vars_init = Inl e"
  shows "parse_callchain_record lines i ct pm = Inl e"
  using assms by (auto simp: parse_callchain_record_def header_missing_def)

lemma nodes_nth:
  assumes "length (triples its) = length (pairs its)"
  shows "map (\<lambda>j. \<lparr>ip = map fst (pairs its) ! j, sp = map snd (pairs its) ! j,
                   node_filename = map (fst \<circ> snd) (triples its) ! j,
                   vaddr_in_file = map (snd \<circ> snd) (triples its) ! j,
                   function_name = map fst (triples its) ! j,
                   map_start_addr = map fst (map (find_bounds pm p) (map fst (pairs its))) ! j,
                   map_end_addr = map snd (map (find_bounds pm p) (map fst (pairs its))) ! j\<rparr>)
             [0..<length (pairs its)] =
         map (\<lambda>((a, b), (fn, f, off)).
                \<lparr>ip = a, sp = b, node_filename = f, vaddr_in_file = off, function_name = fn,
                 map_start_addr = fst (find_bounds pm p a),
                 map_end_addr = snd (find_bounds pm p a)\<rparr>)
             (zip (pairs its) (triples its))"
proof (rule nth_equalityI)
  show "length (map (\<lambda>j. \<lparr>ip = map fst (pairs its) ! j, sp = map snd (pairs its) ! j,
                   node_filename = map (fst \<circ> snd) (triples its) ! j,
                   vaddr_in_file = map (snd \<circ> snd) (triples its) ! j,
                   function_name = map fst (triples its) ! j,
                   map_start_addr = map fst (map (find_bounds pm p) (map fst (pairs its))) ! j,
                   map_end_addr = map snd (map (find_bounds pm p) (map fst (pairs its))) ! j\<rparr>)
             [0..<length (pairs its)]) =
        length (map (\<lambda>((a, b), (fn, f, off)).
                \<lparr>ip = a, sp = b, node_filename = f, vaddr_in_file = off, function_name = fn,
                 map_start_addr = fst (find_bounds pm p a),
                 map_end_addr = snd (find_bounds pm p a)\<rparr>)
             (zip (pairs its) (triples its)))"
    using assms by simp
next
  fix j
  assume "j < length (map (\<lambda>j. \<lparr>ip = map fst (pairs its) ! j, sp = map snd (pairs its) ! j,
                   node_filename = map (fst \<circ> snd) (triples its) ! j,
                   vaddr_in_file = map (snd \<circ> snd) (triples its) ! j,
                   function_name = map fst (triples its) ! j,
                   map_start_addr = map fst (map (find_bounds pm p) (map fst (pairs its))) ! j,
                   map_end_addr = map snd (map (find_bounds pm p) (map fst (pairs its))) ! j\<rparr>)
             [0..<length (pairs its)])"
  then have j: "j < length (pairs its)" "j < length (triples its)" using assms by simp_all
  obtain a b where ab: "pairs its ! j = (a, b)" by (cases "pairs its ! j")
  obtain fn f off where tr: "triples its ! j = (fn, f, off)" by (cases "triples its ! j") auto
  show "map (\<lambda>j. \<lparr>ip = map fst (pairs its) ! j, sp = map snd (pairs its) ! j,
                   node_filename = map (fst \<circ> snd) (triples its) ! j,
                   vaddr_in_file = map (snd \<circ> snd) (triples its) ! j,
                   function_name = map fst (triples its) ! j,
                   map_start_addr = map fst (map (find_bounds pm p) (map fst (pairs its))) ! j,
                   map_end_addr = map snd (map (find_bounds pm p) (map fst (pairs its))) ! j\<rparr>)
             [0..<length (pairs its)] ! j =
        map (\<lambda>((a, b), (fn, f, off)).
                \<lparr>ip = a, sp = b, node_filename = f, vaddr_in_file = off, function_name = fn,
                 map_start_addr = fst (find_bounds pm p a),
                 map_end_addr = snd (find_bounds pm p a)\<rparr>)
             (zip (pairs its) (triples its)) ! j"
    using j ab tr by simp
qed

lemma result_no_stop:
  assumes le: "i \<le> length lines" and hd: "\<not> header_missing lines i"
    and ns: "\<forall>it\<in>set (items_of lines i). \<not> stops ct it"
  shows "parse_callchain_record lines i ct pm =
           (if incomplete (items_of lines i) then Inl (Fatal (block_end lines i))
            else Inr (block_end lines i,
                      \<lparr>record_pid = last_option (pids (items_of lines i)),
                       record_tid = last_option (tids (items_of lines i)),
                       record_callchain = nodes pm (items_of lines i)\<rparr>))"
proof -
  define its where "its = items_of lines i"
  define v where "v = collect its parse_vars_init"
  have loop: "parse_loop ct (drop (i + 1) lines) (i + 1) parse_vars_init = Inr (block_end lines i, v)"
    unfolding v_def its_def using ns by (rule loop_no_stop)
  have f: "ips v = map fst (pairs its)" "sps v = map snd (pairs its)"
    "function_names v = map fst (triples its)"
    "filenames v = map (fst \<circ> snd) (triples its)"
    "vaddr_in_files v = map (snd \<circ> snd) (triples its)"
    "record_pid (callchain_record v) = last_option (pids its)"
    "record_tid (callchain_record v) = last_option (tids its)"
    "record_callchain (callchain_record v) = []"
    unfolding v_def using collect_fields[of its parse_vars_init]
    by (simp_all add: parse_vars_init_def last_option_def)
  have cr: "callchain_record v =
      \<lparr>record_pid = last_option (pids its), record_tid = last_option (tids its), record_callchain = []\<rparr>"
    using f(6,7,8) by (cases "callchain_record v") simp
  have h: "\<not> i > length lines"
    "\<not> (i = length lines \<or> \<not> startswith (lines ! i) ''record callchain:'')"
    using le hd by (auto simp: header_missing_def)
  have inc: "incomplete its \<longleftrightarrow>
       last_option (pids its) = None \<or> last_option (tids its) = None \<or> length (pairs its) = 0 \<or>
       length (triples its) \<noteq> length (pairs its)"
    by (auto simp: incomplete_def last_option_def)
  show ?thesis
  proof (cases "incomplete its")
    case True
    then show ?thesis
      unfolding parse_callchain_record_def its_def[symmetric]
      using h loop f inc by (auto simp: Let_def)
  next
    case False
    then have len: "length (triples its) = length (pairs its)" using inc by simp
    have nd: "nodes pm its =
        map (\<lambda>j. \<lparr>ip = map fst (pairs its) ! j, sp = map snd (pairs its) ! j,
                   node_filename = map (fst \<circ> snd) (triples its) ! j,
                   vaddr_in_file = map (snd \<circ> snd) (triples its) ! j,
                   function_name = map fst (triples its) ! j,
                   map_start_addr = map fst (map (find_bounds pm (last_option (pids its))) (map fst (pairs its))) ! j,
                   map_end_addr = map snd (map (find_bounds pm (last_option (pids its))) (map fst (pairs its))) ! j\<rparr>)
             [0..<length (pairs its)]"
      unfolding nodes_def nodes_nth[OF len] ..
    show ?thesis
      unfolding parse_callchain_record_def its_def[symmetric] nd
      using h loop f False inc len cr by (simp add: Let_def)
  qed
qed

lemma result_first_stop:
  assumes "i \<le> length lines" "\<not> header_missing lines i"
    and "j < length (items_of lines i)" "stops ct (items_of lines i ! j)"
    and "\<forall>m<j. \<not> stops ct (items_of lines i ! m)"
  shows "parse_callchain_record lines i ct pm =
           Inl (if raises_value_error (items_of lines i ! j) then ValueError else Fatal (i + 1 + j))"
  using result_loop_error[OF assms(1,2) loop_first_stop[OF assms(3,4,5)]] .

lemma result_cases:
  assumes "i \<le> length lines"
  obtains (header) "header_missing lines i" "parse_callchain_record lines i ct pm = Inl (Fatal i)"
  | (stop) j where "\<not> header_missing lines i" "j < length (items_of lines i)"
      "stops ct (items_of lines i ! j)" "\<forall>m<j. \<not> stops ct (items_of lines i ! m)"
      "parse_callchain_record lines i ct pm =
         Inl (if raises_value_error (items_of lines i ! j) then ValueError else Fatal (i + 1 + j))"
  | (complete) "\<not> header_missing lines i" "\<forall>it\<in>set (items_of lines i). \<not> stops ct it"
      "parse_callchain_record lines i ct pm =
         (if incomplete (items_of lines i) then Inl (Fatal (block_end lines i))
          else Inr (block_end lines i,
                    \<lparr>record_pid = last_option (pids (items_of lines i)),
                     record_tid = last_option (tids (items_of lines i)),
                     record_callchain = nodes pm (items_of lines i)\<rparr>))"
proof (cases "header_missing lines i")
  case True
  with result_header[OF assms True] header show ?thesis by blast
next
  case hd: False
  show ?thesis
  proof (cases "\<exists>it\<in>set (items_of lines i). stops ct it")
    case True
    then obtain j where j: "j < length (items_of lines i)" "stops ct (items_of lines i ! j)"
      "\<forall>m<j. \<not> stops ct (items_of lines i ! m)"
      by (rule first_stop_exists)
    from stop[OF hd j result_first_stop[OF assms hd j]] show ?thesis .
  next
    case False
    then have ns: "\<forall>it\<in>set (items_of lines i). \<not> stops ct it" by simp
    from complete[OF hd ns result_no_stop[OF assms hd ns]] show ?thesis .
  qed
qed

subsection \<open>The examples\<close>

lemma ex_loop_good:
  "parse_loop ''ORIGINAL_OFFLINE'' (drop 1 (ex_lines h ''1'' ''ORIGINAL_OFFLINE'')) 1 parse_vars_init =
     Inr (7, \<lparr>callchain_record = \<lparr>record_pid = Some 1, record_tid = Some 2, record_callchain = []\<rparr>,
              ips = [16], sps = [32], function_names = [''f''], filenames = [''/lib/a.so''],
              vaddr_in_files = [5], in_callchain = True\<rparr>)"
  by (simp add: ex_lines_def parse_line_def str_defs int_defs parse_vars_init_def Let_def)

lemmas item_defs = items_of_def block_def classify_def frame_parts_def Let_def

lemma ex_items_good:
  "items_of (ex_two_frames ''ORIGINAL_OFFLINE'' ''a'') 0 =
     [PidLine ''1'', TidLine ''2'', TagLine ''ORIGINAL_OFFLINE'', PairLine ''10'' ''20'',
      PairLine ''30'' ''40'', MarkerLine, FrameLine ''f'' ''/lib/a.so'' ''5'',
      FrameLine ''g'' ''/lib/b.so'' ''a'']"
  by (simp add: ex_two_frames_def item_defs str_defs int_defs)

lemma ex_items_tag:
  "items_of (ex_two_frames ''JOINED_OFFLINE'' ''a'') 0 =
     [PidLine ''1'', TidLine ''2'', TagLine ''JOINED_OFFLINE'', PairLine ''10'' ''20'',
      PairLine ''30'' ''40'', MarkerLine, FrameLine ''f'' ''/lib/a.so'' ''5'',
      FrameLine ''g'' ''/lib/b.so'' ''a'']"
  by (simp add: ex_two_frames_def item_defs str_defs int_defs)

lemma ex_items_offset:
  "items_of (ex_two_frames ''ORIGINAL_OFFLINE'' ''zz'') 0 =
     [PidLine ''1'', TidLine ''2'', TagLine ''ORIGINAL_OFFLINE'', PairLine ''10'' ''20'',
      PairLine ''30'' ''40'', MarkerLine, FrameLine ''f'' ''/lib/a.so'' ''5'',
      FrameLine ''g'' ''/lib/b.so'' ''zz'']"
  by (simp add: ex_two_frames_def item_defs str_defs int_defs)

lemma ex_header: "\<not> header_missing (ex_two_frames tag off) 0"
  by (simp add: header_missing_def ex_two_frames_def int_defs)

lemma ex_block_end: "block_end (ex_two_frames tag off) 0 = 9"
proof -
  have "\<not> startswith (''  chain_type '' @ tag) ''record''"
    "\<not> startswith (''    g (/lib/b.so[+'' @ off @ ''])'') ''record''"
    by (simp_all add: startswith_def)
  then show ?thesis
    by (simp add: block_end_def block_def ex_two_frames_def startswith_def)
qed

subsection \<open>The claim about the parser\<close>

text \<open>
  Claim C9, as stated, says that the fatal error is raised if and only if the tag differs,
  pid or tid is missing, no (ip, sp) pair was read or the numbers of pairs and of triples
  differ, and that any other input yields a record. In the first input below the tag is the
  expected one and the block holds a pid, a tid, one pair and one triple, and the call
  raises the fatal error, because the line at \<open>i\<close> is not a \<open>record callchain:\<close> header.
  In the second input the token after \<open>pid\<close> is not an integer, and in the third the
  header, pid, tid, tag and pair are in order and the frame line matches the pattern with
  the offset \<open>zz\<close>: there \<open>int\<close> raises \<open>ValueError\<close>, which is neither the fatal error nor
  a record.
\<close>
theorem parse_callchain_record_counterexample:
  "parse_callchain_record (ex_lines ''record sample:'' ''1'' ''ORIGINAL_OFFLINE'') 0
     ''ORIGINAL_OFFLINE'' ProcessMaps_init = Inl (Fatal 0) \<and>
   parse_loop ''ORIGINAL_OFFLINE'' (drop 1 (ex_lines ''record sample:'' ''1'' ''ORIGINAL_OFFLINE'')) 1
     parse_vars_init =
     Inr (7, \<lparr>callchain_record = \<lparr>record_pid = Some 1, record_tid = Some 2, record_callchain = []\<rparr>,
              ips = [16], sps = [32], function_names = [''f''], filenames = [''/lib/a.so''],
              vaddr_in_files = [5], in_callchain = True\<rparr>) \<and>
   tag_line (ex_lines ''record sample:'' ''1'' ''ORIGINAL_OFFLINE'' ! 3) = Some ''ORIGINAL_OFFLINE'' \<and>
   parse_callchain_record (ex_lines ''record callchain:'' ''x'' ''ORIGINAL_OFFLINE'') 0
     ''ORIGINAL_OFFLINE'' ProcessMaps_init = Inl ValueError \<and>
   re_match_frame ''/lib/a.so[+zz])'' = Some (''/lib/a.so'', ''zz'') \<and>
   parse_callchain_record (ex_lines_offset ''zz'') 0 ''ORIGINAL_OFFLINE'' ProcessMaps_init =
     Inl ValueError"
proof -
  have 1: "parse_callchain_record (ex_lines ''record sample:'' ''1'' ''ORIGINAL_OFFLINE'') 0
     ''ORIGINAL_OFFLINE'' ProcessMaps_init = Inl (Fatal 0)"
    by (simp add: parse_callchain_record_def ex_lines_def int_defs)
  have 3: "tag_line (ex_lines ''record sample:'' ''1'' ''ORIGINAL_OFFLINE'' ! 3) = Some ''ORIGINAL_OFFLINE''"
    by (simp add: tag_line_def ex_lines_def str_defs)
  have 4: "parse_callchain_record (ex_lines ''record callchain:'' ''x'' ''ORIGINAL_OFFLINE'') 0
     ''ORIGINAL_OFFLINE'' ProcessMaps_init = Inl ValueError"
    by (simp add: parse_callchain_record_def ex_lines_def parse_line_def str_defs int_defs
        parse_vars_init_def Let_def)
  have 5: "re_match_frame ''/lib/a.so[+zz])'' = Some (''/lib/a.so'', ''zz'')"
    by (simp add: str_defs)
  have 6: "parse_callchain_record (ex_lines_offset ''zz'') 0 ''ORIGINAL_OFFLINE'' ProcessMaps_init =
     Inl ValueError"
    by (simp add: parse_callchain_record_def ex_lines_offset_def parse_line_def str_defs int_defs
        parse_vars_init_def Let_def)
  from 1 ex_loop_good 3 4 5 6 show ?thesis by simp
qed

text \<open>
  Claim C9, amended. Let \<open>i\<close> be within the input. The block of the record is made of the
  lines after \<open>i\<close> up to the next line that starts with \<open>record\<close> (or the end of the input),
  and item \<open>n\<close> of the block is what the line \<open>i + 1 + n\<close> is read as. Then
  \<open>parse_callchain_record\<close> raises the fatal error exactly in three cases: the line at \<open>i\<close>
  is not a \<open>record callchain:\<close> header (or the input ends there), and the error names \<open>i\<close>;
  the first item that stops the parser is a tag other than the expected one, and the error
  names its line; or no item stops the parser and the block holds no pid, no tid, no
  (ip, sp) pair, or a number of (function name, filename, offset) triples different from
  the number of pairs, and the error names the index after the block. It raises
  \<open>ValueError\<close> exactly when the header is there and the first item that stops the parser
  holds a token that \<open>int\<close> rejects; there is no other exception. In every other case, and
  only then, it returns the index after the block and the record with the last pid and tid
  of the block and one \<open>CallChainNode\<close> per pair, in the order of the lines: the \<open>j\<close>-th
  node holds the \<open>j\<close>-th pair and the \<open>j\<close>-th triple of the block and the bounds of the map
  found for its ip.
\<close>
theorem parse_callchain_record_outcomes:
  assumes "i \<le> length lines"
  shows
   "(header_missing lines i \<longrightarrow> parse_callchain_record lines i ct pm = Inl (Fatal i)) \<and>
    (\<not> header_missing lines i \<and> j < length (items_of lines i) \<and>
       stops ct (items_of lines i ! j) \<and> (\<forall>m<j. \<not> stops ct (items_of lines i ! m)) \<longrightarrow>
       parse_callchain_record lines i ct pm =
         Inl (if raises_value_error (items_of lines i ! j) then ValueError else Fatal (i + 1 + j))) \<and>
    (\<not> header_missing lines i \<and> (\<forall>it\<in>set (items_of lines i). \<not> stops ct it) \<longrightarrow>
       parse_callchain_record lines i ct pm =
         (if incomplete (items_of lines i) then Inl (Fatal (block_end lines i))
          else Inr (block_end lines i,
                    \<lparr>record_pid = last_option (pids (items_of lines i)),
                     record_tid = last_option (tids (items_of lines i)),
                     record_callchain = nodes pm (items_of lines i)\<rparr>))) \<and>
    (parse_callchain_record lines i ct pm = Inl (Fatal k) \<longleftrightarrow>
       (header_missing lines i \<and> k = i) \<or>
       (\<not> header_missing lines i \<and>
          (\<exists>n<length (items_of lines i). wrong_tag ct (items_of lines i ! n) \<and>
             (\<forall>m<n. \<not> stops ct (items_of lines i ! m)) \<and> k = i + 1 + n)) \<or>
       (\<not> header_missing lines i \<and> (\<forall>it\<in>set (items_of lines i). \<not> stops ct it) \<and>
          incomplete (items_of lines i) \<and> k = block_end lines i)) \<and>
    (parse_callchain_record lines i ct pm = Inl ValueError \<longleftrightarrow>
       \<not> header_missing lines i \<and>
       (\<exists>n<length (items_of lines i). raises_value_error (items_of lines i ! n) \<and>
          (\<forall>m<n. \<not> stops ct (items_of lines i ! m)))) \<and>
    (parse_callchain_record lines i ct pm = Inr (k, cr) \<longleftrightarrow>
       \<not> header_missing lines i \<and> (\<forall>it\<in>set (items_of lines i). \<not> stops ct it) \<and>
       \<not> incomplete (items_of lines i) \<and> k = block_end lines i \<and>
       cr = \<lparr>record_pid = last_option (pids (items_of lines i)),
             record_tid = last_option (tids (items_of lines i)),
             record_callchain = nodes pm (items_of lines i)\<rparr>) \<and>
    (parse_callchain_record lines i ct pm = Inl e \<longrightarrow> e = ValueError \<or> (\<exists>n. e = Fatal n)) \<and>
    (\<not> header_missing lines i \<longrightarrow>
       i < block_end lines i \<and> block_end lines i \<le> length lines \<and>
       (block_end lines i = length lines \<or> startswith (lines ! block_end lines i) ''record'') \<and>
       (\<forall>m. i < m \<and> m < block_end lines i \<longrightarrow> \<not> startswith (lines ! m) ''record'') \<and>
       length (items_of lines i) = block_end lines i - (i + 1) \<and>
       (\<forall>n<length (items_of lines i).
          items_of lines i ! n =
            classify (list_ex is_marker (take n (items_of lines i))) (lines ! (i + 1 + n))))"
proof -
  let ?res = "parse_callchain_record lines i ct pm"
  let ?its = "items_of lines i"
  let ?rec = "\<lparr>record_pid = last_option (pids ?its), record_tid = last_option (tids ?its),
               record_callchain = nodes pm ?its\<rparr>"
  have c1: "header_missing lines i \<longrightarrow> ?res = Inl (Fatal i)"
    using result_header[OF assms] by blast
  have c2: "\<not> header_missing lines i \<and> j < length ?its \<and> stops ct (?its ! j) \<and>
            (\<forall>m<j. \<not> stops ct (?its ! m)) \<longrightarrow>
            ?res = Inl (if raises_value_error (?its ! j) then ValueError else Fatal (i + 1 + j))"
    using result_first_stop[OF assms] by blast
  have c3: "\<not> header_missing lines i \<and> (\<forall>it\<in>set ?its. \<not> stops ct it) \<longrightarrow>
            ?res = (if incomplete ?its then Inl (Fatal (block_end lines i))
                    else Inr (block_end lines i, ?rec))"
    using result_no_stop[OF assms] by blast
  have nth_set: "\<And>n. n < length ?its \<Longrightarrow> ?its ! n \<in> set ?its" by simp
  have c4: "?res = Inl (Fatal k) \<longleftrightarrow>
       (header_missing lines i \<and> k = i) \<or>
       (\<not> header_missing lines i \<and>
          (\<exists>n<length ?its. wrong_tag ct (?its ! n) \<and> (\<forall>m<n. \<not> stops ct (?its ! m)) \<and> k = i + 1 + n)) \<or>
       (\<not> header_missing lines i \<and> (\<forall>it\<in>set ?its. \<not> stops ct it) \<and>
          incomplete ?its \<and> k = block_end lines i)"
    (is "?L \<longleftrightarrow> ?A \<or> ?B \<or> ?C")
  proof
    assume L: ?L
    from assms show "?A \<or> ?B \<or> ?C"
    proof (cases rule: result_cases[where ct = ct and pm = pm])
      case header
      with L show ?thesis by simp
    next
      case (stop n)
      from stop(5) L have nv: "\<not> raises_value_error (?its ! n)" and k: "k = i + 1 + n"
        by (auto split: if_splits)
      from stop(3) nv have "wrong_tag ct (?its ! n)" by (simp add: stops_def)
      with stop(1,2,4) k have ?B by blast
      then show ?thesis by blast
    next
      case complete
      from complete(3) L have "incomplete ?its" "k = block_end lines i"
        by (auto split: if_splits)
      with complete(1,2) have ?C by blast
      then show ?thesis by blast
    qed
  next
    assume R: "?A \<or> ?B \<or> ?C"
    then consider (a) ?A | (b) ?B | (c) ?C by blast
    then show ?L
    proof cases
      case a
      with c1 show ?thesis by simp
    next
      case b
      then obtain n where hd: "\<not> header_missing lines i" and n: "n < length ?its"
        "wrong_tag ct (?its ! n)" "\<forall>m<n. \<not> stops ct (?its ! m)" "k = i + 1 + n"
        by blast
      have st: "stops ct (?its ! n)" using n(2) by (simp add: stops_def)
      from result_first_stop[OF assms hd n(1) st n(3)] wrong_tag_no_value_error[OF n(2)] n(4)
      show ?thesis by simp
    next
      case c
      with result_no_stop[OF assms, of ct pm] show ?thesis by simp
    qed
  qed
  have c5: "?res = Inl ValueError \<longleftrightarrow>
       \<not> header_missing lines i \<and>
       (\<exists>n<length ?its. raises_value_error (?its ! n) \<and> (\<forall>m<n. \<not> stops ct (?its ! m)))"
    (is "?L \<longleftrightarrow> ?R")
  proof
    assume L: ?L
    from assms show ?R
    proof (cases rule: result_cases[where ct = ct and pm = pm])
      case header
      with L show ?thesis by simp
    next
      case (stop n)
      from stop(5) L have "raises_value_error (?its ! n)" by (auto split: if_splits)
      with stop(1,2,4) show ?thesis by blast
    next
      case complete
      with L show ?thesis by (auto split: if_splits)
    qed
  next
    assume ?R
    then obtain n where hd: "\<not> header_missing lines i" and n: "n < length ?its"
      "raises_value_error (?its ! n)" "\<forall>m<n. \<not> stops ct (?its ! m)"
      by blast
    have st: "stops ct (?its ! n)" using n(2) by (simp add: stops_def)
    from result_first_stop[OF assms hd n(1) st n(3)] n(2) show ?L by simp
  qed
  have c6: "?res = Inr (k, cr) \<longleftrightarrow>
       \<not> header_missing lines i \<and> (\<forall>it\<in>set ?its. \<not> stops ct it) \<and>
       \<not> incomplete ?its \<and> k = block_end lines i \<and> cr = ?rec"
    (is "?L \<longleftrightarrow> ?R")
  proof
    assume L: ?L
    from assms show ?R
    proof (cases rule: result_cases[where ct = ct and pm = pm])
      case header
      with L show ?thesis by simp
    next
      case (stop n)
      with L show ?thesis by simp
    next
      case complete
      from complete(3) L have "\<not> incomplete ?its" "k = block_end lines i" "cr = ?rec"
        by (auto split: if_splits)
      with complete(1,2) show ?thesis by blast
    qed
  next
    assume ?R
    with result_no_stop[OF assms, of ct pm] show ?L by simp
  qed
  have c7: "?res = Inl e \<longrightarrow> e = ValueError \<or> (\<exists>n. e = Fatal n)"
  proof
    assume L: "?res = Inl e"
    from assms show "e = ValueError \<or> (\<exists>n. e = Fatal n)"
    proof (cases rule: result_cases[where ct = ct and pm = pm])
      case header
      with L have "e = Fatal i" by simp
      then show ?thesis by blast
    next
      case (stop n)
      with L show ?thesis by (auto split: if_splits)
    next
      case complete
      with L show ?thesis by (auto split: if_splits)
    qed
  qed
  have c8: "\<not> header_missing lines i \<longrightarrow>
       i < block_end lines i \<and> block_end lines i \<le> length lines \<and>
       (block_end lines i = length lines \<or> startswith (lines ! block_end lines i) ''record'') \<and>
       (\<forall>m. i < m \<and> m < block_end lines i \<longrightarrow> \<not> startswith (lines ! m) ''record'') \<and>
       length ?its = block_end lines i - (i + 1) \<and>
       (\<forall>n<length ?its. ?its ! n = classify (list_ex is_marker (take n ?its)) (lines ! (i + 1 + n)))"
  proof
    assume hd: "\<not> header_missing lines i"
    from header_ok[OF assms hd] have il: "i < length lines" by simp
    note bp = block_props[OF il]
    have len: "length ?its = length (block lines i)" by (simp add: items_of_def length_scan)
    have b1: "i < block_end lines i" by (simp add: block_end_def)
    have b5: "length ?its = block_end lines i - (i + 1)" using len by (simp add: block_end_def)
    have b6: "\<forall>n<length ?its. ?its ! n = classify (list_ex is_marker (take n ?its)) (lines ! (i + 1 + n))"
    proof (intro allI impI)
      fix n assume n: "n < length ?its"
      then have nb: "n < length (block lines i)" using len by simp
      from scan_nth[OF nb, of False]
      have "?its ! n = classify (list_ex is_marker (take n ?its)) (block lines i ! n)"
        by (simp add: items_of_def)
      with bp(3) nb show "?its ! n = classify (list_ex is_marker (take n ?its)) (lines ! (i + 1 + n))"
        by simp
    qed
    from b1 bp(1) bp(2) bp(4) b5 b6
    show "i < block_end lines i \<and> block_end lines i \<le> length lines \<and>
       (block_end lines i = length lines \<or> startswith (lines ! block_end lines i) ''record'') \<and>
       (\<forall>m. i < m \<and> m < block_end lines i \<longrightarrow> \<not> startswith (lines ! m) ''record'') \<and>
       length ?its = block_end lines i - (i + 1) \<and>
       (\<forall>n<length ?its. ?its ! n = classify (list_ex is_marker (take n ?its)) (lines ! (i + 1 + n)))"
      by (intro conjI)
  qed
  from c1 c2 c3 c4 c5 c6 c7 c8 show ?thesis by (intro conjI)
qed

theorem parse_callchain_record_outcomes_witness:
  "(0::nat) \<le> length (ex_two_frames ''ORIGINAL_OFFLINE'' ''a'') \<and>
   parse_callchain_record (ex_two_frames ''ORIGINAL_OFFLINE'' ''a'') 0
     ''ORIGINAL_OFFLINE'' ProcessMaps_init =
     Inr (9, \<lparr>record_pid = Some 1, record_tid = Some 2,
              record_callchain =
                [\<lparr>ip = 16, sp = 32, node_filename = ''/lib/a.so'', vaddr_in_file = 5,
                  function_name = ''f'', map_start_addr = 0, map_end_addr = 0\<rparr>,
                 \<lparr>ip = 48, sp = 64, node_filename = ''/lib/b.so'', vaddr_in_file = 10,
                  function_name = ''g'', map_start_addr = 0, map_end_addr = 0\<rparr>]\<rparr>) \<and>
   parse_callchain_record (ex_two_frames ''JOINED_OFFLINE'' ''a'') 0
     ''ORIGINAL_OFFLINE'' ProcessMaps_init = Inl (Fatal 3) \<and>
   parse_callchain_record (ex_two_frames ''ORIGINAL_OFFLINE'' ''zz'') 0
     ''ORIGINAL_OFFLINE'' ProcessMaps_init = Inl ValueError"
proof -
  let ?good = "ex_two_frames ''ORIGINAL_OFFLINE'' ''a''"
  let ?tag = "ex_two_frames ''JOINED_OFFLINE'' ''a''"
  let ?off = "ex_two_frames ''ORIGINAL_OFFLINE'' ''zz''"
  have len: "(0::nat) \<le> length ?good" "(0::nat) \<le> length ?tag" "(0::nat) \<le> length ?off"
    by simp_all
  have ints: "py_int 10 ''1'' = Inr 1" "py_int 10 ''2'' = Inr 2" "py_int 16 ''10'' = Inr 16"
    "py_int 16 ''20'' = Inr 32" "py_int 16 ''30'' = Inr 48" "py_int 16 ''40'' = Inr 64"
    "py_int 16 ''5'' = Inr 5" "py_int 16 ''a'' = Inr 10" "py_int 16 ''zz'' = Inl ValueError"
    by (simp_all add: int_defs)
  have bounds: "find_bounds ProcessMaps_init p a = (0, 0)" for p a
    by (cases p) (simp_all add: find_bounds_def find_entry_def get_list_def ProcessMaps_init_def
        bisect_right.simps)
  have good: "parse_callchain_record ?good 0 ''ORIGINAL_OFFLINE'' ProcessMaps_init =
     Inr (9, \<lparr>record_pid = Some 1, record_tid = Some 2,
              record_callchain =
                [\<lparr>ip = 16, sp = 32, node_filename = ''/lib/a.so'', vaddr_in_file = 5,
                  function_name = ''f'', map_start_addr = 0, map_end_addr = 0\<rparr>,
                 \<lparr>ip = 48, sp = 64, node_filename = ''/lib/b.so'', vaddr_in_file = 10,
                  function_name = ''g'', map_start_addr = 0, map_end_addr = 0\<rparr>]\<rparr>)"
    using parse_callchain_record_outcomes[where ct = "''ORIGINAL_OFFLINE''" and pm = ProcessMaps_init, OF len(1)]
    by (simp add: ex_header ex_block_end ex_items_good stops_def ints incomplete_def
        last_option_def nodes_def int_of_def bounds)
  have tag_pre: "\<not> header_missing ?tag 0 \<and> Suc (Suc 0) < length (items_of ?tag 0) \<and>
       stops ''ORIGINAL_OFFLINE'' (items_of ?tag 0 ! Suc (Suc 0)) \<and>
       (\<forall>m<Suc (Suc 0). \<not> stops ''ORIGINAL_OFFLINE'' (items_of ?tag 0 ! m))"
    by (simp add: ex_header ex_items_tag stops_def ints All_less_Suc)
  have tag: "parse_callchain_record ?tag 0 ''ORIGINAL_OFFLINE'' ProcessMaps_init = Inl (Fatal 3)"
    using parse_callchain_record_outcomes[where ct = "''ORIGINAL_OFFLINE''" and pm = ProcessMaps_init
        and j = "Suc (Suc 0)", OF len(2), THEN conjunct2, THEN conjunct1] tag_pre
    by (simp add: ex_items_tag)
  have off_pre: "\<not> header_missing ?off 0 \<and>
       Suc (Suc (Suc (Suc (Suc (Suc (Suc 0)))))) < length (items_of ?off 0) \<and>
       stops ''ORIGINAL_OFFLINE'' (items_of ?off 0 ! Suc (Suc (Suc (Suc (Suc (Suc (Suc 0))))))) \<and>
       (\<forall>m<Suc (Suc (Suc (Suc (Suc (Suc (Suc 0)))))). \<not> stops ''ORIGINAL_OFFLINE'' (items_of ?off 0 ! m))"
    by (simp add: ex_header ex_items_offset stops_def ints All_less_Suc)
  have off: "parse_callchain_record ?off 0 ''ORIGINAL_OFFLINE'' ProcessMaps_init = Inl ValueError"
    using parse_callchain_record_outcomes[where ct = "''ORIGINAL_OFFLINE''" and pm = ProcessMaps_init
        and j = "Suc (Suc (Suc (Suc (Suc (Suc (Suc 0))))))", OF len(3), THEN conjunct2, THEN conjunct1] off_pre
    by (simp add: ex_items_offset ints)
  from good tag off show ?thesis by simp
qed

end
